theory Spec2Isabelle
  imports Complex_Main
begin

section \<open>Strings\<close>

text \<open>
  A Python \<open>str\<close> is a sequence of Unicode code points; it is modelled as the list of
  the code points, each a natural number. \<open>ustr\<close> turns an ASCII literal into such a list.
\<close>

type_synonym pystr = "nat list"

definition ustr :: "string \<Rightarrow> pystr" where
  "ustr s = map of_char s"

text \<open>
  \<open>str.strip()\<close> removes leading and trailing whitespace. The code points for which
  \<open>str.isspace\<close> holds are U+0009..U+000D, U+001C..U+0020, U+0085, U+00A0, U+1680,
  U+2000..U+200A, U+2028, U+2029, U+202F, U+205F and U+3000.
\<close>

definition is_space :: "nat \<Rightarrow> bool" where
  "is_space c \<longleftrightarrow>
     (9 \<le> c \<and> c \<le> 13) \<or> (28 \<le> c \<and> c \<le> 32) \<or> c = 133 \<or> c = 160 \<or> c = 5760 \<or>
     (8192 \<le> c \<and> c \<le> 8202) \<or> c = 8232 \<or> c = 8233 \<or> c = 8239 \<or> c = 8287 \<or> c = 12288"

definition strip_by :: "(nat \<Rightarrow> bool) \<Rightarrow> pystr \<Rightarrow> pystr" where
  "strip_by P s = rev (dropWhile P (rev (dropWhile P s)))"

definition py_strip :: "pystr \<Rightarrow> pystr" where
  "py_strip s = strip_by is_space s"

text \<open>\<open>s.strip(chars)\<close> removes the leading and trailing characters that occur in \<open>chars\<close>.\<close>

definition py_strip_chars :: "pystr \<Rightarrow> pystr \<Rightarrow> pystr" where
  "py_strip_chars chars s = strip_by (\<lambda>c. c \<in> set chars) s"

text \<open>
  \<open>str.lower()\<close>: on a string of ASCII code points it maps \<open>A..Z\<close> to \<open>a..z\<close> and leaves
  every other code point alone. On a string with a code point beyond ASCII the result is
  given by the Unicode case mapping, which is not a per-character map (it can change the
  length and looks at the context); that mapping is the parameter \<open>U\<close> of the model.
\<close>

definition ascii_lower :: "nat \<Rightarrow> nat" where
  "ascii_lower c = (if 65 \<le> c \<and> c \<le> 90 then c + 32 else c)"

definition py_lower :: "(pystr \<Rightarrow> pystr) \<Rightarrow> pystr \<Rightarrow> pystr" where
  "py_lower U s = (if list_all (\<lambda>c. c < 128) s then map ascii_lower s else U s)"

text \<open>\<open>s.replace(old, new)\<close> for a pattern \<open>old\<close> of one character.\<close>

definition py_replace1 :: "nat \<Rightarrow> pystr \<Rightarrow> pystr \<Rightarrow> pystr" where
  "py_replace1 old new s = concat (map (\<lambda>c. if c = old then new else [c]) s)"

text \<open>
  \<open>re.sub(r"[...]", rep, s)\<close> for a character class \<open>P\<close>: every character of the class
  is one match and is replaced by \<open>rep\<close>.
\<close>

definition re_sub_class :: "(nat \<Rightarrow> bool) \<Rightarrow> pystr \<Rightarrow> pystr \<Rightarrow> pystr" where
  "re_sub_class P rep s = concat (map (\<lambda>c. if P c then rep else [c]) s)"

text \<open>
  \<open>re.sub(r"[...]+", rep, s)\<close>: scanning from the left, a character of the class starts
  a match, the match is greedy (the whole run of class characters), it is replaced by
  \<open>rep\<close>, and the scan goes on behind the match.
\<close>

function re_sub_plus :: "(nat \<Rightarrow> bool) \<Rightarrow> pystr \<Rightarrow> pystr \<Rightarrow> pystr" where
  "re_sub_plus P rep [] = []"
| "re_sub_plus P rep (c # cs) =
     (if P c then rep @ re_sub_plus P rep (dropWhile P cs) else c # re_sub_plus P rep cs)"
  by pat_completeness auto
termination
  by (relation "measure (\<lambda>(P, rep, s). length s)")
     (auto simp: less_Suc_eq_le length_dropWhile_le)

subsection \<open>slugify_site_name (scraper.py, lines 36-42)\<close>

text \<open>The class \<open>[\<dots>'`]\<close> of line 39: U+2019, the apostrophe (39) and the backtick (96).\<close>

definition is_quote :: "nat \<Rightarrow> bool" where
  "is_quote c \<longleftrightarrow> c = 8217 \<or> c = 39 \<or> c = 96"

text \<open>The class \<open>[a-z0-9]\<close>.\<close>

definition is_az09 :: "nat \<Rightarrow> bool" where
  "is_az09 c \<longleftrightarrow> (97 \<le> c \<and> c \<le> 122) \<or> (48 \<le> c \<and> c \<le> 57)"

definition slugify_site_name :: "(pystr \<Rightarrow> pystr) \<Rightarrow> pystr \<Rightarrow> pystr" where
  "slugify_site_name U name =
     (let s = py_lower U (py_strip name);
          s = py_replace1 38 (ustr '' and '') s;
          s = re_sub_class is_quote [] s;
          s = re_sub_plus (\<lambda>c. \<not> is_az09 c) (ustr ''_'') s;
          s = re_sub_plus (\<lambda>c. c = 95) (ustr ''_'') s
      in py_strip_chars (ustr ''_'') s)"


text \<open>
  \<open>slug_char\<close> is the alphabet \<open>[a-z0-9_]\<close>; \<open>no_double\<close> says that no two neighbours
  are both underscores; \<open>slug_shape\<close> adds that the string neither starts nor ends with an
  underscore.
\<close>

definition slug_char :: "nat \<Rightarrow> bool" where
  "slug_char c \<longleftrightarrow> is_az09 c \<or> c = 95"

definition no_double :: "pystr \<Rightarrow> bool" where
  "no_double s = successively (\<lambda>a b. \<not> (a = 95 \<and> b = 95)) s"

definition slug_shape :: "pystr \<Rightarrow> bool" where
  "slug_shape s \<longleftrightarrow>
     list_all slug_char s \<and> no_double s \<and> (s = [] \<or> (hd s \<noteq> 95 \<and> last s \<noteq> 95))"

subsection \<open>The normalizer as the specification words it\<close>

text \<open>
  The seven stages of section 4.1 of the specification, each written from its wording and
  not from the regular expressions: a maximal run of characters of a class becomes one
  underscore (\<open>collapse_runs\<close>), apostrophe-like characters are dropped (\<open>filter\<close>), and
  the ampersand is replaced by a word \<open>w\<close>. The specification's word is \<open>and\<close>.
\<close>

fun collapse_runs :: "(nat \<Rightarrow> bool) \<Rightarrow> pystr \<Rightarrow> pystr" where
  "collapse_runs P [] = []"
| "collapse_runs P [c] = (if P c then [95] else [c])"
| "collapse_runs P (c # d # r) =
     (if P c then (if P d then collapse_runs P (d # r) else 95 # collapse_runs P (d # r))
      else c # collapse_runs P (d # r))"

definition expand_ampersand :: "pystr \<Rightarrow> pystr \<Rightarrow> pystr" where
  "expand_ampersand w s = concat (map (\<lambda>c. if c = 38 then w else [c]) s)"

definition slugify_stages :: "pystr \<Rightarrow> (pystr \<Rightarrow> pystr) \<Rightarrow> pystr \<Rightarrow> pystr" where
  "slugify_stages w U name =
     strip_by (\<lambda>c. c = 95)
       (collapse_runs (\<lambda>c. c = 95)
         (collapse_runs (\<lambda>c. \<not> is_az09 c)
           (filter (\<lambda>c. \<not> is_quote c)
             (expand_ampersand w (py_lower U (py_strip name))))))"

text \<open>
  A stand-in for the Unicode case mapping in evaluations on ASCII inputs, where
  \<open>py_lower\<close> never consults it.
\<close>

definition no_unicode :: "pystr \<Rightarrow> pystr" where
  "no_unicode s = s"

section \<open>Numbers as text\<close>

datatype py_error = ValueError | OverflowError | OSError | PlaywrightTimeoutError

text \<open>\<open>str(n)\<close> and the format \<open>{n}\<close> of an integer: decimal digits, a minus sign first.\<close>

fun digits_of :: "nat \<Rightarrow> pystr" where
  "digits_of n = (if n < 10 then [48 + n] else digits_of (n div 10) @ [48 + n mod 10])"

definition py_str_int :: "int \<Rightarrow> pystr" where
  "py_str_int i = (if i < 0 then 45 # digits_of (nat (- i)) else digits_of (nat i))"

text \<open>The format \<open>{n:02d}\<close>: zeros pad the number, its sign included, to width two.\<close>

definition py_fmt_02d :: "int \<Rightarrow> pystr" where
  "py_fmt_02d i =
     (let d = digits_of (nat \<bar>i\<bar>)
      in if i < 0 then 45 # replicate (1 - length d) 48 @ d
         else replicate (2 - length d) 48 @ d)"

subsection \<open>fmt_seconds (scraper.py, lines 180-190)\<close>

text \<open>
  A Python \<open>float\<close> is a finite value, an infinity or a NaN. A finite float is modelled
  by the real number it denotes: \<open>fmt_seconds\<close> only compares it with zero and truncates
  it, and both are exact. \<open>int(x)\<close> truncates towards zero, and raises on an infinity
  (OverflowError) and on a NaN (ValueError).
\<close>

datatype pyfloat = Finite real | PosInf | NegInf | NaN

fun float_le_zero :: "pyfloat \<Rightarrow> bool" where
  "float_le_zero (Finite x) = (x \<le> 0)"
| "float_le_zero PosInf = False"
| "float_le_zero NegInf = True"
| "float_le_zero NaN = False"

fun py_int :: "pyfloat \<Rightarrow> py_error + int" where
  "py_int (Finite x) = Inr (if 0 \<le> x then \<lfloor>x\<rfloor> else \<lceil>x\<rceil>)"
| "py_int PosInf = Inl OverflowError"
| "py_int NegInf = Inl OverflowError"
| "py_int NaN = Inl ValueError"

definition fmt_seconds :: "pyfloat \<Rightarrow> py_error + pystr" where
  "fmt_seconds seconds =
     (if float_le_zero seconds then Inr (ustr ''0s'')
      else case py_int seconds of
        Inl e \<Rightarrow> Inl e
      | Inr s0 \<Rightarrow>
          (let h = s0 div 3600; rem = s0 mod 3600;
               m = rem div 60; s = rem mod 60
           in if h > 0 then
                Inr (py_str_int h @ ustr ''h'' @ py_fmt_02d m @ ustr ''m'' @ py_fmt_02d s @ ustr ''s'')
              else if m > 0 then
                Inr (py_str_int m @ ustr ''m'' @ py_fmt_02d s @ ustr ''s'')
              else Inr (py_str_int s @ ustr ''s'')))"

text \<open>A sub-unit written with exactly two digits.\<close>

definition two_digits :: "nat \<Rightarrow> pystr" where
  "two_digits k = [48 + k div 10, 48 + k mod 10]"

section \<open>The artifact manifest (scraper.py, lines 14-33)\<close>

record PullSpec =
  key :: pystr
  url_template :: pystr

definition SPECS :: "PullSpec list" where
  "SPECS =
    [\<lparr>key = ustr ''incidence'',
      url_template = ustr ''https://seer.cancer.gov/statistics-network/explorer/application.html?site={SITE_ID}&data_type=1&graph_type=2&compareBy=sex&chk_sex_3=3&chk_sex_2=2&rate_type=2&race=1&age_range=1&hdn_stage=101&advopt_precision=1&advopt_show_ci=on#resultsRegion0''\<rparr>,
     \<lparr>key = ustr ''mortality'',
      url_template = ustr ''https://seer.cancer.gov/statistics-network/explorer/application.html?site={SITE_ID}&data_type=2&graph_type=2&compareBy=sex&chk_sex_3=3&chk_sex_2=2&race=1&age_range=1&advopt_precision=1&advopt_show_ci=on''\<rparr>,
     \<lparr>key = ustr ''survival'',
      url_template = ustr ''https://seer.cancer.gov/statistics-network/explorer/application.html?site={SITE_ID}&data_type=4&graph_type=2&compareBy=sex&chk_sex_3=3&chk_sex_2=2&relative_survival_interval=5&race=1&age_range=1&hdn_stage=101&advopt_precision=1&advopt_show_ci=on''\<rparr>]"

text \<open>
  \<open>template.format(SITE_ID=v)\<close> for a template whose only replacement field is
  \<open>{SITE_ID}\<close>, as those of \<open>SPECS\<close> are: every occurrence of the field becomes \<open>str(v)\<close>.
\<close>

fun format_site_id :: "pystr \<Rightarrow> pystr \<Rightarrow> pystr" where
  "format_site_id [] v = []"
| "format_site_id (c # cs) v =
     (if take 9 (c # cs) = ustr ''{SITE_ID}'' then v @ format_site_id (drop 8 cs) v
      else c # format_site_id cs v)"

definition site_url :: "PullSpec \<Rightarrow> int \<Rightarrow> pystr" where
  "site_url spec site_id = format_site_id (url_template spec) (py_str_int site_id)"

section \<open>The files on disk\<close>

text \<open>
  What the operating system answers for a path: nothing, a regular file or a directory,
  the latter two with the size \<open>st_size\<close> that \<open>os.stat\<close> reports. \<open>os.path.exists\<close> holds
  for whatever exists at the path, of either kind; \<open>os.path.getsize\<close> is its \<open>st_size\<close>
  and raises OSError when nothing exists there.
\<close>

datatype fs_entry = RegularFile nat | Directory nat

fun st_size :: "fs_entry \<Rightarrow> nat" where
  "st_size (RegularFile n) = n"
| "st_size (Directory n) = n"

type_synonym filesystem = "pystr \<Rightarrow> fs_entry option"

definition os_path_exists :: "filesystem \<Rightarrow> pystr \<Rightarrow> bool" where
  "os_path_exists fs path = (fs path \<noteq> None)"

definition os_path_getsize :: "filesystem \<Rightarrow> pystr \<Rightarrow> py_error + nat" where
  "os_path_getsize fs path = (case fs path of None \<Rightarrow> Inl OSError | Some e \<Rightarrow> Inr (st_size e))"

definition os_path_isfile :: "filesystem \<Rightarrow> pystr \<Rightarrow> bool" where
  "os_path_isfile fs path = (case fs path of Some (RegularFile n) \<Rightarrow> True | _ \<Rightarrow> False)"

text \<open>
  \<open>os.path.join\<close> on POSIX: a component that starts with a slash (47) restarts the path;
  otherwise it is appended, behind a slash unless the path so far is empty or ends in one.
\<close>

definition join2 :: "pystr \<Rightarrow> pystr \<Rightarrow> pystr" where
  "join2 path b =
     (if b \<noteq> [] \<and> hd b = 47 then b
      else if path = [] \<or> last path = 47 then path @ b
      else path @ 47 # b)"

definition os_path_join :: "pystr \<Rightarrow> pystr list \<Rightarrow> pystr" where
  "os_path_join a ps = foldl join2 a ps"

subsection \<open>file_ok and is_site_complete (scraper.py, lines 127-136)\<close>

text \<open>
  In \<open>file_ok\<close> the size is read only behind \<open>os.path.exists\<close>, where \<open>os.path.getsize\<close>
  does not raise (lemma \<open>getsize_behind_exists\<close>); the \<open>Inl\<close> branch is never taken.
\<close>

definition file_ok :: "filesystem \<Rightarrow> pystr \<Rightarrow> bool" where
  "file_ok fs path =
     (os_path_exists fs path \<and>
      (case os_path_getsize fs path of Inr n \<Rightarrow> 0 < n | Inl e \<Rightarrow> False))"

definition artifact_path :: "pystr \<Rightarrow> PullSpec \<Rightarrow> pystr \<Rightarrow> pystr" where
  "artifact_path out_dir spec slug = os_path_join out_dir [key spec, slug @ ustr ''.csv'']"

fun complete_from :: "filesystem \<Rightarrow> pystr \<Rightarrow> pystr \<Rightarrow> PullSpec list \<Rightarrow> bool" where
  "complete_from fs out_dir slug [] = True"
| "complete_from fs out_dir slug (spec # rest) =
     (if \<not> file_ok fs (artifact_path out_dir spec slug) then False
      else complete_from fs out_dir slug rest)"

definition is_site_complete :: "filesystem \<Rightarrow> pystr \<Rightarrow> pystr \<Rightarrow> bool" where
  "is_site_complete fs out_dir slug = complete_from fs out_dir slug SPECS"

text \<open>A file system whose only entry is a directory where an artifact is expected.\<close>

definition dir_in_the_way :: filesystem where
  "dir_in_the_way = Map.empty(ustr ''out/incidence/lung.csv'' \<mapsto> Directory 4096)"

section \<open>List discovery: get_all_site_ids (scraper.py, lines 76-124)\<close>

text \<open>
  The page is outside the program. What the loop sees of it is the list of identifiers
  that the \<open>k\<close>-th call of \<open>page.evaluate\<close> with the extraction script returns:
  \<open>reads k\<close>. The scroll command and the wait of 250 ms return nothing the loop uses.
  The loop may run forever, so it returns an option: \<open>None\<close> is not returning.
\<close>

partial_function (option)
  discover_loop :: "(nat \<Rightarrow> int list) \<Rightarrow> nat \<Rightarrow> int set \<Rightarrow> nat \<Rightarrow> int set option"
where
  "discover_loop reads k seen stable_rounds =
     (if stable_rounds < 6 then
        (let ids = reads k;
             before = card seen;
             seen' = seen \<union> set ids;
             after = card seen';
             stable_rounds' = (if after = before then stable_rounds + 1 else 0)
         in discover_loop reads (k + 1) seen' stable_rounds')
      else Some seen)"

text \<open>
  Lines 77-81 navigate to the bootstrap page and open the selection control; a timeout
  there is not caught and ends the run (\<open>ui_ready\<close> is false). Line 124 returns
  \<open>sorted(seen)\<close>.
\<close>

definition get_all_site_ids :: "bool \<Rightarrow> (nat \<Rightarrow> int list) \<Rightarrow> (py_error + int list) option" where
  "get_all_site_ids ui_ready reads =
     (if \<not> ui_ready then Some (Inl PlaywrightTimeoutError)
      else map_option (\<lambda>seen. Inr (sorted_list_of_set seen)) (discover_loop reads 0 {} 0))"

text \<open>
  The specification's words for the loop: the set accumulated by the first \<open>n\<close> read
  cycles, and the stability counter after them (one more after a cycle that adds nothing,
  zero after a cycle that adds an identifier).
\<close>

fun seen_after :: "(nat \<Rightarrow> int list) \<Rightarrow> nat \<Rightarrow> int set" where
  "seen_after reads 0 = {}"
| "seen_after reads (Suc n) = seen_after reads n \<union> set (reads n)"

fun stability_counter :: "(nat \<Rightarrow> int list) \<Rightarrow> nat \<Rightarrow> nat" where
  "stability_counter reads 0 = 0"
| "stability_counter reads (Suc n) =
     (if set (reads n) \<subseteq> seen_after reads n then stability_counter reads n + 1 else 0)"

text \<open>A list that renders nothing in its first six read cycles and identifier 1 from then on.\<close>

definition late_reads :: "nat \<Rightarrow> int list" where
  "late_reads k = (if k < 6 then [] else [1])"

text \<open>
  A list of the identifiers 1, 2, 3 that renders 3 and 1 first and 2 and 3 from the second
  read cycle on.
\<close>

definition prompt_reads :: "nat \<Rightarrow> int list" where
  "prompt_reads k = (if k = 0 then [3, 1] else [2, 3])"

section \<open>The item pull engine\<close>

text \<open>
  The browser page and the remote site are outside the program. The model records what
  the program does to the page (\<open>event\<close>s, in order) and takes the page's answers from
  an environment \<open>env\<close>: each answer may depend on everything done to the page so far.
  \<^item> \<open>goto_ok evs url\<close>: \<open>page.goto(url)\<close> returns (false: PlaywrightTimeoutError);
  \<^item> \<open>selector_ok evs sel\<close>: \<open>page.wait_for_selector(sel)\<close> returns (false: timeout);
  \<^item> \<open>title_attr evs\<close>, \<open>inner_text evs\<close>: the title attribute (possibly absent) and the
    text of the selection control's label;
  \<^item> \<open>download_size evs\<close>: the size of the file that the click on the export control
    delivers, \<open>None\<close> when click or download time out;
  \<^item> \<open>unicode_lower\<close>: the Unicode case mapping that \<open>py_lower\<close> takes.
\<close>

datatype event = Goto pystr | Click pystr | SaveAs pystr

record env =
  goto_ok :: "event list \<Rightarrow> pystr \<Rightarrow> bool"
  selector_ok :: "event list \<Rightarrow> pystr \<Rightarrow> bool"
  title_attr :: "event list \<Rightarrow> pystr option"
  inner_text :: "event list \<Rightarrow> pystr"
  download_size :: "event list \<Rightarrow> nat option"
  unicode_lower :: "pystr \<Rightarrow> pystr"

text \<open>
  The world the program acts on: the events on the page, the files on disk and the lines
  printed that the model can state exactly (the progress line of \<open>main\<close> carries
  wall-clock values and is left out).
\<close>

record world =
  events :: "event list"
  files :: filesystem
  console :: "pystr list"

definition page_goto :: "env \<Rightarrow> world \<Rightarrow> pystr \<Rightarrow> bool \<times> world" where
  "page_goto E w url = (goto_ok E (events w) url, w\<lparr>events := events w @ [Goto url]\<rparr>)"

subsection \<open>get_site_name (scraper.py, lines 45-55)\<close>

definition get_site_name :: "env \<Rightarrow> world \<Rightarrow> pystr option" where
  "get_site_name E w =
     (if \<not> selector_ok E (events w) (ustr ''#select2-Select_site-container'') then None
      else
        (let title = title_attr E (events w);
             txt = py_strip (inner_text E (events w))
         in case title of
              Some t \<Rightarrow>
                if t \<noteq> [] \<and> py_strip t \<noteq> [] then Some (py_strip t)
                else if txt = [] then None else Some txt
            | None \<Rightarrow> if txt = [] then None else Some txt))"

subsection \<open>download_csv (scraper.py, lines 58-73)\<close>

text \<open>
  The directory of \<open>out_path\<close> is created by \<open>main\<close> before the loop (lines 197-199), so
  \<open>os.makedirs\<close> in line 69 finds it; the model does not track it.
\<close>

definition download_csv :: "env \<Rightarrow> world \<Rightarrow> pystr \<Rightarrow> bool \<times> world" where
  "download_csv E w out_path =
     (if \<not> selector_ok E (events w) (ustr ''#dload-data'') then (False, w)
      else
        (let w1 = w\<lparr>events := events w @ [Click (ustr ''#dload-data'')]\<rparr>
         in case download_size E (events w1) of
              None \<Rightarrow> (False, w1)
            | Some n \<Rightarrow>
                (True, w1\<lparr>events := events w1 @ [SaveAs out_path],
                          files := (files w1)(out_path \<mapsto> RegularFile n)\<rparr>)))"

subsection \<open>pull_one_site (scraper.py, lines 139-177)\<close>

type_synonym name_map = "pystr \<Rightarrow> pystr option"

text \<open>\<open>name_map.setdefault(slug, site_name)\<close>: the first name stays.\<close>

definition setdefault :: "name_map \<Rightarrow> pystr \<Rightarrow> pystr \<Rightarrow> name_map" where
  "setdefault nm k v = (case nm k of None \<Rightarrow> nm(k \<mapsto> v) | Some old \<Rightarrow> nm)"

text \<open>The loop of lines 161-175 over the manifest, with \<open>ok_any\<close> and the world as state.\<close>

fun pull_specs :: "env \<Rightarrow> int \<Rightarrow> pystr \<Rightarrow> pystr \<Rightarrow> PullSpec list \<Rightarrow> bool \<times> world \<Rightarrow> bool \<times> world" where
  "pull_specs E site_id out_dir slug [] (ok_any, w) = (ok_any, w)"
| "pull_specs E site_id out_dir slug (spec # rest) (ok_any, w) =
     (let out_path = artifact_path out_dir spec slug
      in if file_ok (files w) out_path then pull_specs E site_id out_dir slug rest (True, w)
         else
           (let (nav, w1) = page_goto E w (site_url spec site_id)
            in if \<not> nav then pull_specs E site_id out_dir slug rest (ok_any, w1)
               else
                 (let (ok, w2) = download_csv E w1 out_path
                  in pull_specs E site_id out_dir slug rest (ok_any \<or> ok, w2))))"

definition pull_one_site :: "env \<Rightarrow> int \<Rightarrow> pystr \<Rightarrow> world \<times> name_map \<Rightarrow> bool \<times> world \<times> name_map" where
  "pull_one_site E site_id out_dir st =
     (let (w, nm) = st;
          first_url = site_url (hd SPECS) site_id;
          (nav, w1) = page_goto E w first_url
      in if \<not> nav then (False, w1, nm)
         else case get_site_name E w1 of
           None \<Rightarrow> (False, w1, nm)
         | Some site_name \<Rightarrow>
             if site_name = [] then (False, w1, nm)
             else
               (let slug = slugify_site_name (unicode_lower E) site_name;
                    nm1 = setdefault nm slug site_name
                in if is_site_complete (files w1) out_dir slug then
                     (True, w1\<lparr>console := console w1 @ [ustr ''   SKIP (complete): '' @ slug]\<rparr>, nm1)
                   else
                     (let (ok_any, w2) = pull_specs E site_id out_dir slug SPECS (False, w1)
                      in (ok_any, w2, nm1))))"

section \<open>The run orchestrator: the loop of main (scraper.py, lines 214-272)\<close>

text \<open>
  The state of the loop: the world, the name map, the consecutive-miss counter and the
  \<open>last_site_id\<close> that \<open>progress.json\<close> holds on disk (\<open>None\<close>: the file is absent or holds
  null). \<open>history\<close> is an observation log that the model adds and the source does not
  have: the identifiers passed to \<open>pull_one_site\<close>, in order, each with the result. The
  timing values (\<open>last3\<close>, ETA) only feed the progress line and are left out.
\<close>

record run_state =
  page :: world
  names :: name_map
  misses :: int
  progress_file :: "int option"
  history :: "(int \<times> bool) list"

text \<open>\<open>site_ids.index(x)\<close>: the first position of \<open>x\<close>; \<open>None\<close> stands for ValueError.\<close>

fun py_index :: "int \<Rightarrow> int list \<Rightarrow> nat option" where
  "py_index x [] = None"
| "py_index x (y # ys) = (if x = y then Some 0 else map_option Suc (py_index x ys))"

text \<open>
  Lines 227-230. \<open>index\<close> is called only behind \<open>last_site in site_ids\<close>, where it does not
  raise; its \<open>None\<close> branch is never taken.
\<close>

definition start_idx :: "int option \<Rightarrow> int list \<Rightarrow> nat" where
  "start_idx last_site site_ids =
     (case last_site of
        None \<Rightarrow> 0
      | Some l \<Rightarrow>
          if l \<in> set site_ids then (case py_index l site_ids of Some i \<Rightarrow> i + 1 | None \<Rightarrow> 0)
          else 0)"

text \<open>
  The body of the \<open>for\<close> loop, lines 257-272, over the identifiers still to visit. On the
  miss that reaches the threshold the loop is left by \<open>break\<close> (line 268), before lines
  270-272 write the progress file.
\<close>

fun iterate :: "env \<Rightarrow> pystr \<Rightarrow> int \<Rightarrow> int list \<Rightarrow> run_state \<Rightarrow> run_state" where
  "iterate E out_dir stop_after [] st = st"
| "iterate E out_dir stop_after (site_id # rest) st =
     (let (ok, w, nm) = pull_one_site E site_id out_dir (page st, names st);
          st1 = st\<lparr>page := w, names := nm, history := history st @ [(site_id, ok)]\<rparr>
      in if ok then
           iterate E out_dir stop_after rest (st1\<lparr>misses := 0, progress_file := Some site_id\<rparr>)
         else
           (let st2 = st1\<lparr>misses := misses st1 + 1\<rparr>
            in if misses st2 \<ge> stop_after then
                 st2\<lparr>page := (page st2)\<lparr>console := console (page st2) @
                       [ustr ''Stopping after '' @ py_str_int (misses st2) @ ustr '' consecutive misses.'']\<rparr>\<rparr>
               else iterate E out_dir stop_after rest (st2\<lparr>progress_file := Some site_id\<rparr>)))"

text \<open>
  \<open>main\<close> from the discovered identifiers on (lines 227-272): \<open>misses\<close> starts at zero,
  the loop runs over \<open>site_ids[start_idx:]\<close>.
\<close>

definition initial_state :: "world \<Rightarrow> name_map \<Rightarrow> int option \<Rightarrow> run_state" where
  "initial_state w nm last_site =
     \<lparr>page = w, names = nm, misses = 0, progress_file = last_site, history = []\<rparr>"

definition main_loop :: "env \<Rightarrow> pystr \<Rightarrow> int \<Rightarrow> int list \<Rightarrow> world \<Rightarrow> name_map \<Rightarrow> int option \<Rightarrow> run_state" where
  "main_loop E out_dir stop_after site_ids w nm last_site =
     iterate E out_dir stop_after (drop (start_idx last_site site_ids) site_ids)
       (initial_state w nm last_site)"

text \<open>The number of failures at the end of a history with no success behind them.\<close>

definition trailing_misses :: "(int \<times> bool) list \<Rightarrow> nat" where
  "trailing_misses h = length (takeWhile (\<lambda>p. \<not> snd p) (rev h))"

text \<open>
  The circuit breaker fires behind a history: its last item failed and the failures at
  its end have reached the threshold.
\<close>

definition breaks_at :: "int \<Rightarrow> (int \<times> bool) list \<Rightarrow> bool" where
  "breaks_at stop_after h \<longleftrightarrow>
     h \<noteq> [] \<and> \<not> snd (last h) \<and> stop_after \<le> int (trailing_misses h)"

text \<open>
  Concrete surroundings for evaluations: a site on which every navigation returns and
  the selection control never shows a label, one on which it shows the label \<open>Lung\<close>,
  an empty disk, and a disk that holds all three artifacts of \<open>lung\<close>.
\<close>

definition nameless_site :: env where
  "nameless_site =
     \<lparr>goto_ok = (\<lambda>evs url. True), selector_ok = (\<lambda>evs sel. False),
      title_attr = (\<lambda>evs. None), inner_text = (\<lambda>evs. []),
      download_size = (\<lambda>evs. None), unicode_lower = no_unicode\<rparr>"

definition lung_site :: env where
  "lung_site =
     \<lparr>goto_ok = (\<lambda>evs url. True), selector_ok = (\<lambda>evs sel. True),
      title_attr = (\<lambda>evs. Some (ustr ''Lung'')), inner_text = (\<lambda>evs. []),
      download_size = (\<lambda>evs. Some 100), unicode_lower = no_unicode\<rparr>"

definition empty_world :: world where
  "empty_world = \<lparr>events = [], files = Map.empty, console = []\<rparr>"

definition lung_done :: filesystem where
  "lung_done = Map.empty(ustr ''out/incidence/lung.csv'' \<mapsto> RegularFile 10,
                         ustr ''out/mortality/lung.csv'' \<mapsto> RegularFile 20,
                         ustr ''out/survival/lung.csv'' \<mapsto> RegularFile 30)"

section \<open>Properties of the slug normalizer\<close>

lemma ustr_underscore: "ustr ''_'' = [95]"
  by (simp add: ustr_def)

lemma set_re_sub_plus: "set (re_sub_plus P rep s) \<subseteq> {c \<in> set s. \<not> P c} \<union> set rep"
proof (induction P rep s rule: re_sub_plus.induct)
  case (1 P rep)
  show ?case by simp
next
  case (2 P rep c cs)
  show ?case
  proof (cases "P c")
    case True
    have "set (dropWhile P cs) \<subseteq> set cs" by (auto dest: set_dropWhileD)
    with 2(1)[OF True] True show ?thesis by auto
  next
    case False
    with 2(2)[OF False] show ?thesis by auto
  qed
qed

lemma re_sub_plus_head:
  "s = [] \<or> \<not> P (hd s) \<Longrightarrow> re_sub_plus P rep s = [] \<or> \<not> P (hd (re_sub_plus P rep s))"
  by (cases s) auto

lemma dropWhile_head: "dropWhile P s = [] \<or> \<not> P (hd (dropWhile P s))"
  by (metis hd_dropWhile)

lemma no_double_re_sub_plus: "no_double (re_sub_plus (\<lambda>c. c = 95) [95] s)"
proof (induction "\<lambda>c::nat. c = 95" "[95::nat]" s rule: re_sub_plus.induct)
  case 1
  show ?case by (simp add: no_double_def)
next
  case (2 c cs)
  show ?case
  proof (cases "c = 95")
    case True
    let ?r = "re_sub_plus (\<lambda>c. c = 95) [95] (dropWhile (\<lambda>c. c = 95) cs)"
    have "?r = [] \<or> hd ?r \<noteq> 95"
      using re_sub_plus_head[where s = "dropWhile (\<lambda>c. c = 95) cs" and P = "\<lambda>c. c = 95"
          and rep = "[95]"]
        dropWhile_head[where P = "\<lambda>c. c = 95" and s = cs]
      by simp
    with 2(1)[OF True] True show ?thesis
      by (auto simp: no_double_def successively_Cons)
  next
    case False
    with 2(2)[OF False] show ?thesis
      by (auto simp: no_double_def successively_Cons)
  qed
qed

lemma strip_by_infix: "\<exists>a b. s = a @ strip_by P s @ b"
proof -
  let ?d = "dropWhile P s"
  have 1: "s = takeWhile P s @ ?d" by simp
  have 2: "rev ?d = takeWhile P (rev ?d) @ dropWhile P (rev ?d)" by simp
  have "?d = rev (dropWhile P (rev ?d)) @ rev (takeWhile P (rev ?d))"
    using arg_cong[OF 2, of rev] by (simp del: takeWhile_dropWhile_id)
  then have "s = takeWhile P s @ strip_by P s @ rev (takeWhile P (rev ?d))"
    unfolding strip_by_def using 1 by metis
  then show ?thesis by blast
qed

lemma strip_by_ends:
  "strip_by P s = [] \<or> (\<not> P (hd (strip_by P s)) \<and> \<not> P (last (strip_by P s)))"
proof (cases "strip_by P s = []")
  case True then show ?thesis by simp
next
  case False
  let ?d = "dropWhile P s"
  let ?e = "dropWhile P (rev ?d)"
  from False have e: "?e \<noteq> []" by (simp add: strip_by_def)
  then have d: "?d \<noteq> []" by (metis dropWhile.simps(1) rev.simps(1))
  have l: "\<not> P (hd ?e)" using e by (metis hd_dropWhile)
  have hd_d: "\<not> P (hd ?d)" using d by (metis hd_dropWhile)
  have "rev ?d = butlast (rev ?d) @ [hd ?d]"
    using d by (metis append_butlast_last_id last_rev rev_is_Nil_conv)
  then have "?e = dropWhile P (butlast (rev ?d)) @ [hd ?d]"
    using hd_d by (metis dropWhile_append3)
  then have "last ?e = hd ?d" by (metis last_snoc)
  then have "hd (rev ?e) = hd ?d" using e by (simp add: hd_rev)
  moreover have "last (rev ?e) = hd ?e" using e by (simp add: last_rev)
  ultimately show ?thesis using l hd_d by (simp add: strip_by_def)
qed


lemma no_double_infix: "no_double (a @ s @ b) \<Longrightarrow> no_double s"
  by (simp add: no_double_def successively_append_iff)

lemma no_double_strip_by: "no_double s \<Longrightarrow> no_double (strip_by P s)"
  using strip_by_infix[of s P] no_double_infix by metis

lemma set_strip_by: "set (strip_by P s) \<subseteq> set s"
proof -
  obtain a b where "s = a @ strip_by P s @ b" using strip_by_infix by blast
  then have "set s = set a \<union> set (strip_by P s) \<union> set b" by (metis set_append Un_assoc)
  then show ?thesis by blast
qed

lemma no_double_split: "no_double (a @ 95 # 95 # b) \<Longrightarrow> False"
  by (simp add: no_double_def successively_append_iff)

lemma slugify_shape: "slug_shape (slugify_site_name U name)"
proof -
  define s3 where "s3 = re_sub_class is_quote [] (py_replace1 38 (ustr '' and '') (py_lower U (py_strip name)))"
  define t1 where "t1 = re_sub_plus (\<lambda>c. \<not> is_az09 c) [95] s3"
  define t2 where "t2 = re_sub_plus (\<lambda>c. c = 95) [95] t1"
  have out: "slugify_site_name U name = strip_by (\<lambda>c. c \<in> set [95]) t2"
    by (simp add: slugify_site_name_def ustr_underscore py_strip_chars_def t2_def t1_def s3_def)
  have "set t1 \<subseteq> {c. slug_char c}"
    using set_re_sub_plus[of "\<lambda>c. \<not> is_az09 c" "[95]" s3] by (auto simp: t1_def slug_char_def)
  then have c2: "set t2 \<subseteq> {c. slug_char c}"
    using set_re_sub_plus[of "\<lambda>c. c = 95" "[95]" t1] by (auto simp: t2_def slug_char_def)
  have n2: "no_double t2" by (simp add: t2_def no_double_re_sub_plus)
  let ?o = "strip_by (\<lambda>c. c \<in> set [95]) t2"
  have "set ?o \<subseteq> {c. slug_char c}" using c2 set_strip_by by blast
  then have a: "list_all slug_char ?o" by (auto simp: list_all_iff)
  have b: "no_double ?o" using n2 by (rule no_double_strip_by)
  have c: "?o = [] \<or> (hd ?o \<noteq> 95 \<and> last ?o \<noteq> 95)"
    using strip_by_ends[of "\<lambda>c. c \<in> set [95]" t2] by simp
  show ?thesis unfolding out slug_shape_def using a b c by blast
qed

text \<open>
  Claim C10. For every input string and every Unicode case mapping, the output of
  \<open>slugify_site_name\<close> contains only characters of \<open>[a-z0-9_]\<close>, does not begin with an
  underscore (95), does not end with one, and nowhere contains two underscores in a row.
\<close>

theorem C10_slug_alphabet_and_underscores:
  "list_all slug_char (slugify_site_name U name) \<and>
   \<not> (\<exists>r. slugify_site_name U name = 95 # r) \<and>
   \<not> (\<exists>r. slugify_site_name U name = r @ [95]) \<and>
   \<not> (\<exists>a b. slugify_site_name U name = a @ 95 # 95 # b)"
proof -
  let ?o = "slugify_site_name U name"
  have sh: "slug_shape ?o" by (rule slugify_shape)
  have 1: "list_all slug_char ?o" using sh by (simp add: slug_shape_def)
  have 2: "\<not> (\<exists>r. ?o = 95 # r)" using sh by (auto simp: slug_shape_def)
  have 3: "\<not> (\<exists>r. ?o = r @ [95])" using sh by (auto simp: slug_shape_def)
  have 4: "\<not> (\<exists>a b. ?o = a @ 95 # 95 # b)"
    using sh no_double_split by (auto simp: slug_shape_def)
  show ?thesis using 1 2 3 4 by blast
qed

lemma strip_by_id: "s = [] \<or> (\<not> P (hd s) \<and> \<not> P (last s)) \<Longrightarrow> strip_by P s = s"
proof (cases s)
  case Nil then show ?thesis by (simp add: strip_by_def)
next
  case (Cons x xs)
  assume "s = [] \<or> (\<not> P (hd s) \<and> \<not> P (last s))"
  with Cons have h: "\<not> P x" and l: "\<not> P (last s)" by auto
  have 1: "dropWhile P s = s" using Cons h by simp
  have "rev s \<noteq> []" using Cons by simp
  moreover have "hd (rev s) = last s" using Cons by (simp add: hd_rev)
  ultimately have "dropWhile P (rev s) = rev s" using l
    by (metis dropWhile.simps(2) list.collapse)
  with 1 show ?thesis by (simp add: strip_by_def)
qed

lemma concat_map_id: "\<forall>c\<in>set s. \<not> P c \<Longrightarrow> concat (map (\<lambda>c. if P c then rep else [c]) s) = s"
  by (induction s) auto

lemma re_sub_plus_id:
  "\<forall>c\<in>set s. P c \<longrightarrow> c = 95 \<Longrightarrow> no_double s \<Longrightarrow> re_sub_plus P [95] s = s"
proof (induction P "[95::nat]" s rule: re_sub_plus.induct)
  case (1 P)
  show ?case by simp
next
  case (2 P c cs)
  have nd: "no_double cs" using 2(4) by (auto simp: no_double_def successively_Cons)
  show ?case
  proof (cases "P c")
    case True
    then have c: "c = 95" using 2(3) by simp
    have "cs = [] \<or> \<not> P (hd cs)"
      using 2(3,4) c by (cases cs) (auto simp: no_double_def)
    then have d: "dropWhile P cs = cs" by (cases cs) auto
    have "re_sub_plus P [95] (dropWhile P cs) = dropWhile P cs"
      using 2(1)[OF True] 2(3) nd d by simp
    with True c d show ?thesis by simp
  next
    case False
    have "re_sub_plus P [95] cs = cs" using 2(2)[OF False] 2(3) nd by simp
    with False show ?thesis by simp
  qed
qed

lemma slug_char_facts:
  "slug_char c \<Longrightarrow> \<not> is_space c \<and> c < 128 \<and> ascii_lower c = c \<and> c \<noteq> 38 \<and> \<not> is_quote c \<and> (\<not> is_az09 c \<longrightarrow> c = 95)"
  by (auto simp: slug_char_def is_az09_def is_space_def ascii_lower_def is_quote_def)

lemma slugify_fixes_shape:
  assumes "slug_shape s"
  shows "slugify_site_name U s = s"
proof -
  from assms have chars: "\<forall>c\<in>set s. slug_char c" and nd: "no_double s"
    and ends: "s = [] \<or> (hd s \<noteq> 95 \<and> last s \<noteq> 95)"
    by (auto simp: slug_shape_def list_all_iff)
  have ends_in: "s \<noteq> [] \<Longrightarrow> hd s \<in> set s \<and> last s \<in> set s" by simp
  have 1: "py_strip s = s"
    unfolding py_strip_def using chars ends_in slug_char_facts by (intro strip_by_id) blast
  have 2: "py_lower U s = s"
    using chars slug_char_facts by (auto simp: py_lower_def list_all_iff intro: map_idI)
  have 3: "py_replace1 38 (ustr '' and '') s = s"
    unfolding py_replace1_def using chars slug_char_facts by (intro concat_map_id) blast
  have 4: "re_sub_class is_quote [] s = s"
    unfolding re_sub_class_def using chars slug_char_facts by (intro concat_map_id) blast
  have 5: "re_sub_plus (\<lambda>c. \<not> is_az09 c) [95] s = s"
    using chars slug_char_facts nd by (intro re_sub_plus_id) blast+
  have 6: "re_sub_plus (\<lambda>c. c = 95) [95] s = s"
    using nd by (intro re_sub_plus_id) blast+
  have 7: "py_strip_chars [95] s = s"
    unfolding py_strip_chars_def using ends by (intro strip_by_id) auto
  show ?thesis
    by (simp add: slugify_site_name_def ustr_underscore 1 2 3 4 5 6 7)
qed

text \<open>
  Claim C6. Applying \<open>slugify_site_name\<close> to its own output changes nothing. The claim
  asks this of the outputs made of lowercase alphanumerics and underscores only; by
  \<open>slugify_shape\<close> every output is one, so the equation holds for every input \<open>x\<close>.
\<close>

theorem C6_slugify_idempotent:
  "slugify_site_name U (slugify_site_name U x) = slugify_site_name U x"
  by (rule slugify_fixes_shape) (rule slugify_shape)

lemma re_sub_plus_run:
  "P c \<Longrightarrow> re_sub_plus P rep (c # cs) = rep @ re_sub_plus P rep (dropWhile P cs)"
  by simp

lemma re_sub_plus_collapse: "re_sub_plus P [95] s = collapse_runs P s"
proof (induction P s rule: collapse_runs.induct)
  case (1 P)
  show ?case by simp
next
  case (2 P c)
  show ?case by simp
next
  case (3 P c d r)
  show ?case
  proof (cases "P c")
    case False
    with 3 show ?thesis by simp
  next
    case c: True
    show ?thesis
    proof (cases "P d")
      case True
      have "re_sub_plus P [95] (c # d # r) = [95] @ re_sub_plus P [95] (dropWhile P r)"
        using c True by simp
      also have "\<dots> = re_sub_plus P [95] (d # r)" using True by simp
      also have "\<dots> = collapse_runs P (d # r)" using 3(1)[OF c True] .
      finally show ?thesis using c True by simp
    next
      case False
      have "re_sub_plus P [95] (c # d # r) = 95 # re_sub_plus P [95] (d # r)"
        using c False by simp
      with 3(2)[OF c False] c False show ?thesis by simp
    qed
  qed
qed

lemma re_sub_class_drop: "re_sub_class P [] s = filter (\<lambda>c. \<not> P c) s"
  by (induction s) (simp_all add: re_sub_class_def)

lemma slugify_as_stages:
  "slugify_site_name U name = slugify_stages (ustr '' and '') U name"
proof -
  have m: "(\<lambda>c. c \<in> set [95::nat]) = (\<lambda>c. c = 95)" by auto
  show ?thesis
    by (simp add: slugify_site_name_def slugify_stages_def ustr_underscore
        re_sub_plus_collapse re_sub_class_drop py_replace1_def expand_ampersand_def
        py_strip_chars_def m)
qed

lemmas slug_eval = slugify_site_name_def slugify_stages_def ustr_def py_strip_def strip_by_def
  is_space_def py_lower_def py_replace1_def re_sub_class_def py_strip_chars_def ascii_lower_def
  is_quote_def is_az09_def expand_ampersand_def

text \<open>
  Claim C5, as amended. \<open>slugify_site_name\<close> is the seven stages in this order: trim
  surrounding whitespace, lowercase, replace each ampersand by the word \<open>and\<close> with one
  blank before it and one behind it, drop the apostrophe-like characters, turn each
  maximal run of characters outside \<open>[a-z0-9]\<close> into one underscore, turn each run of
  underscores into one, trim the underscores at both ends. The two examples of the claim hold.
\<close>

theorem C5_slugify_stages_in_order:
  "slugify_site_name U name = slugify_stages (ustr '' and '') U name \<and>
   slugify_site_name U (ustr ''St. Jude's & Sons'') = ustr ''st_judes_and_sons'' \<and>
   slugify_site_name U (ustr ''   '') = ustr ''''"
proof -
  have 1: "slugify_site_name U name = slugify_stages (ustr '' and '') U name"
    by (rule slugify_as_stages)
  have 2: "slugify_site_name U (ustr ''St. Jude's & Sons'') = ustr ''st_judes_and_sons''"
    by (simp add: slug_eval)
  have 3: "slugify_site_name U (ustr ''   '') = ustr ''''"
    by (simp add: slug_eval)
  show ?thesis using 1 2 3 by blast
qed

text \<open>
  Claim C5 as stated replaces the ampersand by the word \<open>and\<close> alone. On \<open>a&b\<close> the stages
  so read give \<open>aandb\<close>; the source pads the word with blanks (line 38) and gives
  \<open>a_and_b\<close>.
\<close>

theorem C5_literal_and_counterexample:
  "slugify_site_name no_unicode (ustr ''a&b'') = ustr ''a_and_b'' \<and>
   slugify_stages (ustr ''and'') no_unicode (ustr ''a&b'') = ustr ''aandb'' \<and>
   slugify_site_name no_unicode (ustr ''a&b'') \<noteq> slugify_stages (ustr ''and'') no_unicode (ustr ''a&b'')"
  by (simp add: slug_eval)

section \<open>Properties of the completion checker\<close>

lemma getsize_behind_exists:
  "os_path_exists fs path \<Longrightarrow> \<exists>n. os_path_getsize fs path = Inr n"
  by (auto simp: os_path_exists_def os_path_getsize_def)

lemma file_ok_iff: "file_ok fs path \<longleftrightarrow> (\<exists>e. fs path = Some e \<and> 0 < st_size e)"
  by (cases "fs path") (simp_all add: file_ok_def os_path_exists_def os_path_getsize_def)

lemma complete_from_all:
  "complete_from fs out_dir slug specs = list_all (\<lambda>spec. file_ok fs (artifact_path out_dir spec slug)) specs"
  by (induction specs) simp_all

text \<open>
  Claim C7, as amended. \<open>file_ok fs path\<close> holds iff something exists at \<open>path\<close>, a regular
  file or a directory, and its size is greater than zero; \<open>is_site_complete\<close> holds iff
  \<open>file_ok\<close> holds at the path joined from \<open>out_dir\<close>, the key and \<open>slug.csv\<close> for every
  kind of the manifest, that is for \<open>incidence\<close>, \<open>mortality\<close> and \<open>survival\<close>: all or
  nothing.
\<close>

theorem C7_file_ok_and_is_site_complete:
  "(file_ok fs path \<longleftrightarrow> (\<exists>e. fs path = Some e \<and> 0 < st_size e)) \<and>
   (is_site_complete fs out_dir slug \<longleftrightarrow>
      list_all (\<lambda>spec. file_ok fs (os_path_join out_dir [key spec, slug @ ustr ''.csv''])) SPECS) \<and>
   (is_site_complete fs out_dir slug \<longleftrightarrow>
      file_ok fs (os_path_join out_dir [ustr ''incidence'', slug @ ustr ''.csv'']) \<and>
      file_ok fs (os_path_join out_dir [ustr ''mortality'', slug @ ustr ''.csv'']) \<and>
      file_ok fs (os_path_join out_dir [ustr ''survival'', slug @ ustr ''.csv'']))"
proof -
  have 1: "file_ok fs path \<longleftrightarrow> (\<exists>e. fs path = Some e \<and> 0 < st_size e)"
    by (rule file_ok_iff)
  have 2: "is_site_complete fs out_dir slug \<longleftrightarrow>
      list_all (\<lambda>spec. file_ok fs (os_path_join out_dir [key spec, slug @ ustr ''.csv''])) SPECS"
    by (simp add: is_site_complete_def complete_from_all artifact_path_def)
  have 3: "is_site_complete fs out_dir slug \<longleftrightarrow>
      file_ok fs (os_path_join out_dir [ustr ''incidence'', slug @ ustr ''.csv'']) \<and>
      file_ok fs (os_path_join out_dir [ustr ''mortality'', slug @ ustr ''.csv'']) \<and>
      file_ok fs (os_path_join out_dir [ustr ''survival'', slug @ ustr ''.csv''])"
    unfolding 2 by (simp add: SPECS_def)
  show ?thesis using 1 2 3 by blast
qed

lemmas fs_eval = file_ok_def os_path_exists_def os_path_getsize_def os_path_isfile_def
  os_path_join_def join2_def ustr_def

text \<open>
  Claim C7 at a disk that holds the three artifacts of \<open>lung\<close>: the item is complete,
  and no longer so once one of the files is empty.
\<close>

theorem C7_witness_lung_done:
  "is_site_complete lung_done (ustr ''out'') (ustr ''lung'') \<and>
   file_ok lung_done (ustr ''out/survival/lung.csv'') \<and>
   \<not> is_site_complete (lung_done(ustr ''out/mortality/lung.csv'' \<mapsto> RegularFile 0)) (ustr ''out'') (ustr ''lung'')"
proof -
  note a = C7_file_ok_and_is_site_complete[of lung_done "ustr ''out/survival/lung.csv''"
      "ustr ''out''" "ustr ''lung''", THEN conjunct2, THEN conjunct2]
  note b = C7_file_ok_and_is_site_complete[of
      "lung_done(ustr ''out/mortality/lung.csv'' \<mapsto> RegularFile 0)" "ustr ''out/survival/lung.csv''"
      "ustr ''out''" "ustr ''lung''", THEN conjunct2, THEN conjunct2]
  have 1: "is_site_complete lung_done (ustr ''out'') (ustr ''lung'')"
    unfolding a by (simp add: fs_eval lung_done_def)
  have 2: "file_ok lung_done (ustr ''out/survival/lung.csv'')"
    by (simp add: fs_eval lung_done_def)
  have 3: "\<not> is_site_complete (lung_done(ustr ''out/mortality/lung.csv'' \<mapsto> RegularFile 0)) (ustr ''out'') (ustr ''lung'')"
    unfolding b by (simp add: fs_eval lung_done_def)
  show ?thesis using 1 2 3 by blast
qed

text \<open>
  Claim C7 as stated asks for a regular file. \<open>os.path.exists\<close> (line 128) also holds for
  a directory: with a directory of size 4096 at the path, \<open>file_ok\<close> holds and no regular
  file is there.
\<close>

theorem C7_directory_counterexample:
  "file_ok dir_in_the_way (ustr ''out/incidence/lung.csv'') \<and>
   \<not> os_path_isfile dir_in_the_way (ustr ''out/incidence/lung.csv'')"
  by (simp add: fs_eval dir_in_the_way_def)

section \<open>Properties of fmt_seconds\<close>

declare digits_of.simps [simp del]

lemma digits_of_small: "n < 10 \<Longrightarrow> digits_of n = [48 + n]"
  by (subst digits_of.simps) simp

lemma digits_of_two: "10 \<le> n \<Longrightarrow> n < 100 \<Longrightarrow> digits_of n = [48 + n div 10, 48 + n mod 10]"
  by (subst digits_of.simps) (simp add: digits_of_small)

lemma fmt_02d_two_digits: "k < 100 \<Longrightarrow> py_fmt_02d (int k) = two_digits k"
proof (cases "k < 10")
  case True
  then show ?thesis by (simp add: py_fmt_02d_def two_digits_def digits_of_small)
next
  case False
  assume "k < 100"
  with False show ?thesis by (simp add: py_fmt_02d_def two_digits_def digits_of_two)
qed

lemma str_int_nat: "py_str_int (int n) = digits_of n"
  by (simp add: py_str_int_def)

lemma fmt_seconds_positive:
  assumes "0 < x"
  shows "fmt_seconds (Finite x) =
    Inr (let n = nat \<lfloor>x\<rfloor>
         in if 3600 \<le> n then
              digits_of (n div 3600) @ ustr ''h'' @ two_digits (n div 60 mod 60) @ ustr ''m'' @
              two_digits (n mod 60) @ ustr ''s''
            else if 60 \<le> n then digits_of (n div 60) @ ustr ''m'' @ two_digits (n mod 60) @ ustr ''s''
            else digits_of n @ ustr ''s'')"
proof -
  define n where "n = nat \<lfloor>x\<rfloor>"
  have fl: "\<lfloor>x\<rfloor> = int n" using assms by (simp add: n_def)
  have H: "int n div 3600 = int (n div 3600)" by (simp add: zdiv_int)
  have m': "n mod 3600 div 60 = n div 60 mod 60"
  proof -
    have "n div 60 mod 60 = n mod (60 * 60) div 60" by (simp only: mod_mult2_eq)
    then show ?thesis by simp
  qed
  have R: "int n mod 3600 div 60 = int (n div 60 mod 60)"
    unfolding m'[symmetric] by (simp add: zdiv_int zmod_int)
  have S: "int n mod 3600 mod 60 = int (n mod 60)"
  proof -
    have "int n mod 3600 mod 60 = int n mod 60" by (rule mod_mod_cancel) simp
    then show ?thesis by (simp add: zmod_int)
  qed
  have mlt: "n div 60 mod 60 < 100" and slt: "n mod 60 < 100"
    by (simp_all add: less_trans[OF mod_less_divisor])
  have small: "n < 3600 \<Longrightarrow> n div 60 mod 60 = n div 60"
    by (simp add: less_mult_imp_div_less)
  have small2: "n < 60 \<Longrightarrow> n mod 60 = n" by simp
  have pos: "(0 < n div 3600) = (3600 \<le> n)" by (simp add: div_greater_zero_iff)
  have pos2: "(0 < n div 60) = (60 \<le> n)" by (simp add: div_greater_zero_iff)
  have nonpos: "\<not> x \<le> 0" using assms by simp
  have ge: "0 \<le> x" using assms by simp
  have unfolded: "fmt_seconds (Finite x) =
     (if 0 < n div 3600 then
        Inr (digits_of (n div 3600) @ ustr ''h'' @ two_digits (n div 60 mod 60) @ ustr ''m'' @
             two_digits (n mod 60) @ ustr ''s'')
      else if 0 < n div 60 mod 60 then
        Inr (digits_of (n div 60 mod 60) @ ustr ''m'' @ two_digits (n mod 60) @ ustr ''s'')
      else Inr (digits_of (n mod 60) @ ustr ''s''))"
    unfolding fmt_seconds_def float_le_zero.simps py_int.simps fl Let_def H R S
    by (simp only: nonpos ge if_True if_False sum.case H R S str_int_nat
        fmt_02d_two_digits[OF mlt] fmt_02d_two_digits[OF slt] of_nat_0_less_iff)
  consider (H) "3600 \<le> n" | (M) "n < 3600" "60 \<le> n" | (S) "n < 60" by linarith
  then have "fmt_seconds (Finite x) =
     Inr (if 3600 \<le> n then
              digits_of (n div 3600) @ ustr ''h'' @ two_digits (n div 60 mod 60) @ ustr ''m'' @
              two_digits (n mod 60) @ ustr ''s''
            else if 60 \<le> n then digits_of (n div 60) @ ustr ''m'' @ two_digits (n mod 60) @ ustr ''s''
            else digits_of n @ ustr ''s'')"
  proof cases
    case H
    then show ?thesis unfolding unfolded pos by simp
  next
    case M
    then show ?thesis unfolding unfolded pos small[OF M(1)] pos2 by simp
  next
    case S
    then have "n < 3600" by simp
    with S show ?thesis unfolding unfolded pos small[OF \<open>n < 3600\<close>] pos2 small2[OF S] by simp
  qed
  then show ?thesis by (simp add: Let_def n_def)
qed

lemma fmt_seconds_nonpositive: "float_le_zero x \<Longrightarrow> fmt_seconds x = Inr (ustr ''0s'')"
  by (simp add: fmt_seconds_def)


text \<open>
  Claim C9. For a finite duration \<open>x\<close>: \<open>0s\<close> when \<open>x \<le> 0\<close>; otherwise, with \<open>n\<close> the whole
  seconds of \<open>x\<close>, hours, minutes and seconds when \<open>n\<close> reaches an hour, minutes and
  seconds when it reaches a minute, seconds alone below that, every sub-unit with exactly
  two digits. Minus infinity gives \<open>0s\<close> too, and the three examples hold.
\<close>

theorem C9_fmt_seconds:
  "fmt_seconds (Finite x) =
     Inr (if x \<le> 0 then ustr ''0s''
          else let n = nat \<lfloor>x\<rfloor>
               in if 3600 \<le> n then
                    digits_of (n div 3600) @ ustr ''h'' @ two_digits (n div 60 mod 60) @ ustr ''m'' @
                    two_digits (n mod 60) @ ustr ''s''
                  else if 60 \<le> n then
                    digits_of (n div 60) @ ustr ''m'' @ two_digits (n mod 60) @ ustr ''s''
                  else digits_of n @ ustr ''s'') \<and>
   fmt_seconds NegInf = Inr (ustr ''0s'') \<and>
   fmt_seconds (Finite 0) = Inr (ustr ''0s'') \<and>
   fmt_seconds (Finite 65) = Inr (ustr ''1m05s'') \<and>
   fmt_seconds (Finite 3661) = Inr (ustr ''1h01m01s'')"
proof -
  have 1: "fmt_seconds (Finite x) =
     Inr (if x \<le> 0 then ustr ''0s''
          else let n = nat \<lfloor>x\<rfloor>
               in if 3600 \<le> n then
                    digits_of (n div 3600) @ ustr ''h'' @ two_digits (n div 60 mod 60) @ ustr ''m'' @
                    two_digits (n mod 60) @ ustr ''s''
                  else if 60 \<le> n then
                    digits_of (n div 60) @ ustr ''m'' @ two_digits (n mod 60) @ ustr ''s''
                  else digits_of n @ ustr ''s'')"
  proof (cases "x \<le> 0")
    case True
    then show ?thesis using fmt_seconds_nonpositive[of "Finite x"] by simp
  next
    case False
    then have "0 < x" by simp
    from fmt_seconds_positive[OF this] False show ?thesis by simp
  qed
  have 2: "fmt_seconds NegInf = Inr (ustr ''0s'')"
    by (rule fmt_seconds_nonpositive) simp
  have 3: "fmt_seconds (Finite 0) = Inr (ustr ''0s'')"
    by (rule fmt_seconds_nonpositive) simp
  have 4: "fmt_seconds (Finite 65) = Inr (ustr ''1m05s'')"
    by (simp add: fmt_seconds_def py_str_int_def py_fmt_02d_def ustr_def digits_of.simps)
  have 5: "fmt_seconds (Finite 3661) = Inr (ustr ''1h01m01s'')"
    by (simp add: fmt_seconds_def py_str_int_def py_fmt_02d_def ustr_def digits_of.simps)
  show ?thesis using 1 2 3 4 5 by blast
qed

section \<open>Properties of the run orchestrator\<close>

lemma trailing_misses_Nil: "trailing_misses [] = 0"
  by (simp add: trailing_misses_def)

lemma trailing_misses_hit: "trailing_misses (h @ [(x, True)]) = 0"
  by (simp add: trailing_misses_def)

lemma trailing_misses_miss: "trailing_misses (h @ [(x, False)]) = trailing_misses h + 1"
  by (simp add: trailing_misses_def)

lemma iterate_hit:
  assumes "pull_one_site E x d (page st, names st) = (True, w, nm)"
  shows "iterate E d N (x # rest) st =
    iterate E d N rest
      (st\<lparr>page := w, names := nm, history := history st @ [(x, True)],
          misses := 0, progress_file := Some x\<rparr>)"
  using assms by simp

lemma iterate_miss_on:
  assumes "pull_one_site E x d (page st, names st) = (False, w, nm)"
    and "misses st + 1 < N"
  shows "iterate E d N (x # rest) st =
    iterate E d N rest
      (st\<lparr>page := w, names := nm, history := history st @ [(x, False)],
          misses := misses st + 1, progress_file := Some x\<rparr>)"
  using assms by (simp add: Let_def)

lemma iterate_miss_break:
  assumes "pull_one_site E x d (page st, names st) = (False, w, nm)"
    and "N \<le> misses st + 1"
  shows "history (iterate E d N (x # rest) st) = history st @ [(x, False)] \<and>
         misses (iterate E d N (x # rest) st) = misses st + 1 \<and>
         progress_file (iterate E d N (x # rest) st) = progress_file st"
  using assms by (simp add: Let_def)

lemma iterate_run:
  assumes "misses st = int (trailing_misses (history st))"
  shows "\<exists>h. history (iterate E d N items st) = history st @ h \<and>
             map fst h = take (length h) items \<and>
             misses (iterate E d N items st) = int (trailing_misses (history st @ h)) \<and>
             (length h < length items \<longrightarrow> breaks_at N (history st @ h)) \<and>
             (\<forall>k. 0 < k \<and> k < length h \<longrightarrow> \<not> breaks_at N (history st @ take k h))"
  using assms
proof (induction items arbitrary: st)
  case Nil
  then show ?case by simp
next
  case (Cons x rest)
  obtain ok w nm where p: "pull_one_site E x d (page st, names st) = (ok, w, nm)"
    by (cases "pull_one_site E x d (page st, names st)") auto
  show ?case
  proof (cases "\<not> ok \<and> N \<le> misses st + 1")
    case True
    then have p': "pull_one_site E x d (page st, names st) = (False, w, nm)" using p by simp
    note b = iterate_miss_break[OF p', of N rest] 
    have "N \<le> misses st + 1" using True by simp
    from b[OF this] have hist: "history (iterate E d N (x # rest) st) = history st @ [(x, False)]"
      and mis: "misses (iterate E d N (x # rest) st) = misses st + 1" by simp_all
    have br: "breaks_at N (history st @ [(x, False)])"
      using True Cons.prems by (simp add: breaks_at_def trailing_misses_miss)
    show ?thesis
      apply (rule exI[of _ "[(x, False)]"])
      using hist mis br Cons.prems by (simp add: trailing_misses_miss)
  next
    case False
    define st' where "st' = st\<lparr>page := w, names := nm, history := history st @ [(x, ok)],
          misses := (if ok then 0 else misses st + 1), progress_file := Some x\<rparr>"
    have step: "iterate E d N (x # rest) st = iterate E d N rest st'"
    proof (cases ok)
      case True
      with p show ?thesis unfolding st'_def by (simp add: iterate_hit)
    next
      case no: False
      with False have "misses st + 1 < N" by simp
      with p no show ?thesis unfolding st'_def by (simp add: iterate_miss_on)
    qed
    have inv: "misses st' = int (trailing_misses (history st'))"
      using Cons.prems by (cases ok) (simp_all add: st'_def trailing_misses_hit trailing_misses_miss)
    have nb: "\<not> breaks_at N (history st')"
      using False Cons.prems
      by (cases ok) (simp_all add: st'_def breaks_at_def trailing_misses_miss)
    from Cons.IH[OF inv] obtain h where
      h1: "history (iterate E d N rest st') = history st' @ h"
      and h2: "map fst h = take (length h) rest"
      and h3: "misses (iterate E d N rest st') = int (trailing_misses (history st' @ h))"
      and h4: "length h < length rest \<longrightarrow> breaks_at N (history st' @ h)"
      and h5: "\<forall>k. 0 < k \<and> k < length h \<longrightarrow> \<not> breaks_at N (history st' @ take k h)"
      by blast
    have hs: "history st' = history st @ [(x, ok)]" by (simp add: st'_def)
    have g5: "\<forall>k. 0 < k \<and> k < length ((x, ok) # h) \<longrightarrow>
        \<not> breaks_at N (history st @ take k ((x, ok) # h))"
    proof (intro allI impI)
      fix k assume k: "0 < k \<and> k < length ((x, ok) # h)"
      then obtain j where j: "k = Suc j" by (cases k) auto
      show "\<not> breaks_at N (history st @ take k ((x, ok) # h))"
      proof (cases "j = 0")
        case True
        with j nb hs show ?thesis by simp
      next
        case False
        with k j have "0 < j \<and> j < length h" by simp
        with h5 have "\<not> breaks_at N (history st' @ take j h)" by blast
        with j hs show ?thesis by simp
      qed
    qed
    show ?thesis
      apply (rule exI[of _ "(x, ok) # h"])
      using step h1 h2 h3 h4 g5 hs by simp
  qed
qed

text \<open>With a threshold below one the first failure ends the loop.\<close>

lemma nonpositive_threshold:
  assumes "N \<le> 0" and "0 \<le> misses st"
    and "pull_one_site E x d (page st, names st) = (False, w, nm)"
  shows "history (iterate E d N (x # rest) st) = history st @ [(x, False)]"
proof -
  have "N \<le> misses st + 1" using assms(1,2) by simp
  from iterate_miss_break[OF assms(3) this] show ?thesis by simp
qed

text \<open>
  Where the progress marker stands behind the loop: at the last item attempted, unless
  the circuit breaker has fired; then at the item before it (or where it stood before the
  loop, when the loop attempted one item only).
\<close>

lemma iterate_marker:
  assumes "misses st = int (trailing_misses (history st))"
  shows "\<exists>h. history (iterate E d N items st) = history st @ h \<and>
             (h = [] \<longrightarrow> progress_file (iterate E d N items st) = progress_file st) \<and>
             (h \<noteq> [] \<and> \<not> breaks_at N (history st @ h) \<longrightarrow>
                progress_file (iterate E d N items st) = Some (fst (last h))) \<and>
             (h \<noteq> [] \<and> breaks_at N (history st @ h) \<longrightarrow>
                progress_file (iterate E d N items st) =
                  (if length h = 1 then progress_file st else Some (fst (h ! (length h - 2)))))"
  using assms
proof (induction items arbitrary: st)
  case Nil
  then show ?case by simp
next
  case (Cons x rest)
  obtain ok w nm where p: "pull_one_site E x d (page st, names st) = (ok, w, nm)"
    by (cases "pull_one_site E x d (page st, names st)") auto
  show ?case
  proof (cases "\<not> ok \<and> N \<le> misses st + 1")
    case True
    then have p': "pull_one_site E x d (page st, names st) = (False, w, nm)" using p by simp
    have n: "N \<le> misses st + 1" using True by simp
    note b = iterate_miss_break[OF p' n, of rest]
    have br: "breaks_at N (history st @ [(x, False)])"
      using True Cons.prems by (simp add: breaks_at_def trailing_misses_miss)
    show ?thesis
      apply (rule exI[of _ "[(x, False)]"])
      using b br by simp
  next
    case False
    define st' where "st' = st\<lparr>page := w, names := nm, history := history st @ [(x, ok)],
          misses := (if ok then 0 else misses st + 1), progress_file := Some x\<rparr>"
    have step: "iterate E d N (x # rest) st = iterate E d N rest st'"
    proof (cases ok)
      case True
      with p show ?thesis unfolding st'_def by (simp add: iterate_hit)
    next
      case no: False
      with False have "misses st + 1 < N" by simp
      with p no show ?thesis unfolding st'_def by (simp add: iterate_miss_on)
    qed
    have inv: "misses st' = int (trailing_misses (history st'))"
      using Cons.prems by (cases ok) (simp_all add: st'_def trailing_misses_hit trailing_misses_miss)
    have nb: "\<not> breaks_at N (history st')"
      using False Cons.prems
      by (cases ok) (simp_all add: st'_def breaks_at_def trailing_misses_miss)
    have hs: "history st' = history st @ [(x, ok)]" and ps: "progress_file st' = Some x"
      by (simp_all add: st'_def)
    from Cons.IH[OF inv] obtain h where
      h1: "history (iterate E d N rest st') = history st' @ h"
      and h2: "h = [] \<longrightarrow> progress_file (iterate E d N rest st') = progress_file st'"
      and h3: "h \<noteq> [] \<and> \<not> breaks_at N (history st' @ h) \<longrightarrow>
                progress_file (iterate E d N rest st') = Some (fst (last h))"
      and h4: "h \<noteq> [] \<and> breaks_at N (history st' @ h) \<longrightarrow>
                progress_file (iterate E d N rest st') =
                  (if length h = 1 then progress_file st' else Some (fst (h ! (length h - 2))))"
      by blast
    let ?r = "iterate E d N (x # rest) st"
    let ?h = "(x, ok) # h"
    have g1: "history ?r = history st @ ?h" using step h1 hs by simp
    have g3: "\<not> breaks_at N (history st @ ?h) \<longrightarrow> progress_file ?r = Some (fst (last ?h))"
    proof (cases "h = []")
      case True
      with h2 ps step show ?thesis by simp
    next
      case False
      with h3 hs step show ?thesis by simp
    qed
    have g4: "breaks_at N (history st @ ?h) \<longrightarrow>
        progress_file ?r = (if length ?h = 1 then progress_file st else Some (fst (?h ! (length ?h - 2))))"
    proof
      assume b: "breaks_at N (history st @ ?h)"
      have ne: "h \<noteq> []" using b nb hs by auto
      then have "0 < length h" by simp
      then have "length h = 1 \<or> 2 \<le> length h" by linarith
      then show "progress_file ?r =
          (if length ?h = 1 then progress_file st else Some (fst (?h ! (length ?h - 2))))"
      proof
        assume one: "length h = 1"
        with h4 ne b hs ps step show ?thesis by simp
      next
        assume two: "2 \<le> length h"
        then have "length ?h - 2 = Suc (length h - 2)" by simp
        then have "?h ! (length ?h - 2) = h ! (length h - 2)" by simp
        with h4 ne b hs step two show ?thesis by simp
      qed
    qed
    show ?thesis
      apply (rule exI[of _ ?h])
      using g1 g3 g4 by simp
  qed
qed

lemma trailing_misses_last_hit: "h \<noteq> [] \<Longrightarrow> snd (last h) \<Longrightarrow> trailing_misses h = 0"
  by (cases h rule: rev_cases) (auto simp: trailing_misses_def)

lemma trailing_misses_last_miss:
  "h \<noteq> [] \<Longrightarrow> \<not> snd (last h) \<Longrightarrow> trailing_misses h = trailing_misses (butlast h) + 1"
  by (cases h rule: rev_cases) (auto simp: trailing_misses_def)

lemma initial_state_inv:
  "misses (initial_state w nm marker) = int (trailing_misses (history (initial_state w nm marker)))"
  by (simp add: initial_state_def trailing_misses_Nil)

lemma iterate_from_initial:
  "\<exists>h. history (iterate E d N items (initial_state w nm marker)) = h \<and>
       map fst h = take (length h) items \<and>
       misses (iterate E d N items (initial_state w nm marker)) = int (trailing_misses h) \<and>
       (length h < length items \<longrightarrow> breaks_at N h) \<and>
       (\<forall>k. 0 < k \<and> k < length h \<longrightarrow> \<not> breaks_at N (take k h))"
  using iterate_run[OF initial_state_inv, of E d N items w nm marker]
  by (simp add: initial_state_def)

text \<open>
  Claim C4. With a threshold \<open>N\<close> of at least one and the counter at zero before the loop:
  the items attempted are an initial stretch of the list, in order; before the loop ends
  the failures in a row stay below \<open>N\<close>; when the loop ends before the list does, exactly
  \<open>N\<close> failures in a row end the history, and nothing behind them is attempted; a loop
  that ends with fewer than \<open>N\<close> failures in a row has gone through the whole list; the
  counter equals the number of failures since the last success, zero behind a success.
  (For a threshold below one see \<open>nonpositive_threshold\<close>.)
\<close>

theorem C4_circuit_breaker:
  assumes "0 < N"
  shows "let r = iterate E d N items (initial_state w nm marker); h = history r in
     map fst h = take (length h) items \<and>
     (\<forall>k<length h. int (trailing_misses (take k h)) < N) \<and>
     (length h < length items \<longrightarrow> int (trailing_misses h) = N) \<and>
     (int (trailing_misses h) < N \<longrightarrow> length h = length items) \<and>
     misses r = int (trailing_misses h) \<and>
     (h \<noteq> [] \<and> snd (last h) \<longrightarrow> misses r = 0)"
proof -
  define r where "r = iterate E d N items (initial_state w nm marker)"
  define h where "h = history r"
  from iterate_from_initial[of E d N items w nm marker]
  have p1: "map fst h = take (length h) items"
    and p2: "misses r = int (trailing_misses h)"
    and p3: "length h < length items \<longrightarrow> breaks_at N h"
    and p4: "\<forall>k. 0 < k \<and> k < length h \<longrightarrow> \<not> breaks_at N (take k h)"
    unfolding r_def h_def by simp_all
  have below: "int (trailing_misses (take k h)) < N" if "k < length h" for k
  proof (cases "k = 0")
    case True
    with assms show ?thesis by (simp add: trailing_misses_Nil)
  next
    case False
    with that p4 have nb: "\<not> breaks_at N (take k h)" by simp
    have ne: "take k h \<noteq> []" using False that by auto
    show ?thesis
    proof (cases "snd (last (take k h))")
      case True
      with ne assms show ?thesis by (simp add: trailing_misses_last_hit)
    next
      case False
      with nb ne show ?thesis by (simp add: breaks_at_def)
    qed
  qed
  have q2: "\<forall>k<length h. int (trailing_misses (take k h)) < N" using below by blast
  have q3: "length h < length items \<longrightarrow> int (trailing_misses h) = N"
  proof
    assume "length h < length items"
    with p3 have b: "breaks_at N h" by simp
    then have ne: "h \<noteq> []" and miss: "\<not> snd (last h)" and ge: "N \<le> int (trailing_misses h)"
      by (simp_all add: breaks_at_def)
    have "butlast h = take (length h - 1) h" by (simp add: butlast_conv_take)
    moreover have "length h - 1 < length h" using ne by simp
    ultimately have "int (trailing_misses (butlast h)) < N" using below by metis
    with trailing_misses_last_miss[OF ne miss] ge show "int (trailing_misses h) = N" by simp
  qed
  have len: "length h \<le> length items"
  proof -
    have "length (map fst h) = length (take (length h) items)" using p1 by simp
    then show ?thesis by simp
  qed
  have q4: "int (trailing_misses h) < N \<longrightarrow> length h = length items"
  proof
    assume "int (trailing_misses h) < N"
    then have "\<not> breaks_at N h" by (simp add: breaks_at_def)
    with p3 len show "length h = length items" by auto
  qed
  have q6: "h \<noteq> [] \<and> snd (last h) \<longrightarrow> misses r = 0"
    using p2 by (simp add: trailing_misses_last_hit)
  show ?thesis using p1 q2 q3 q4 p2 q6 unfolding Let_def r_def[symmetric] h_def[symmetric] by blast
qed

lemmas run_eval = main_loop_def start_idx_def initial_state_def pull_one_site_def page_goto_def
  get_site_name_def nameless_site_def empty_world_def trailing_misses_def

text \<open>
  Claim C4 at threshold two on a site where every item fails: the third item is never
  attempted.
\<close>

theorem C4_witness_two_misses:
  "(0::int) < 2 \<and>
   history (iterate nameless_site (ustr ''out'') 2 [5, 7, 9] (initial_state empty_world Map.empty None))
     = [(5, False), (7, False)] \<and>
   misses (iterate nameless_site (ustr ''out'') 2 [5, 7, 9] (initial_state empty_world Map.empty None)) = 2"
proof -
  have h: "history (iterate nameless_site (ustr ''out'') 2 [5, 7, 9] (initial_state empty_world Map.empty None))
     = [(5, False), (7, False)]"
    by (simp add: run_eval)
  have "(0::int) < 2" by simp
  from C4_circuit_breaker[OF this, of nameless_site "ustr ''out''" "[5, 7, 9]" empty_world Map.empty None]
  have "misses (iterate nameless_site (ustr ''out'') 2 [5, 7, 9] (initial_state empty_world Map.empty None)) = 2"
    unfolding Let_def h by (simp add: trailing_misses_def)
  with h show ?thesis by simp
qed

text \<open>
  Claim C1 says that the progress marker is written behind every attempted item, the
  item whose failure fires the circuit breaker included. With threshold two and two
  failing items 5 and 7, item 7 is attempted and the loop is left at line 268 before the
  write of lines 270-272: the marker on disk still names item 5. Lemma \<open>iterate_marker\<close>
  gives the general picture: behind every other attempted item the marker names it.
\<close>

theorem C1_marker_not_written_on_break:
  "history (main_loop nameless_site (ustr ''out'') 2 [5, 7] empty_world Map.empty None)
     = [(5, False), (7, False)] \<and>
   progress_file (main_loop nameless_site (ustr ''out'') 2 [5, 7] empty_world Map.empty None) = Some 5"
  by (simp add: run_eval)

lemma py_index_nth: "distinct xs \<Longrightarrow> K < length xs \<Longrightarrow> py_index (xs ! K) xs = Some K"
proof (induction xs arbitrary: K)
  case Nil
  then show ?case by simp
next
  case (Cons y ys)
  show ?case
  proof (cases K)
    case 0
    then show ?thesis by simp
  next
    case (Suc j)
    with Cons.prems have j: "j < length ys" and d: "distinct ys" and ne: "ys ! j \<noteq> y"
      by auto
    from Cons.IH[OF d j] Suc ne show ?thesis by simp
  qed
qed

lemma index_behind_membership: "x \<in> set xs \<Longrightarrow> \<exists>i. py_index x xs = Some i"
  by (induction xs) auto

lemma start_idx_found:
  "distinct site_ids \<Longrightarrow> K < length site_ids \<Longrightarrow> start_idx (Some (site_ids ! K)) site_ids = Suc K"
  by (simp add: start_idx_def py_index_nth)

lemma start_idx_none: "start_idx None site_ids = 0"
  by (simp add: start_idx_def)

lemma start_idx_absent: "m \<notin> set site_ids \<Longrightarrow> start_idx (Some m) site_ids = 0"
  by (simp add: start_idx_def)

lemma main_loop_attempts:
  "map fst (history (main_loop E d N site_ids w nm marker)) =
     take (length (history (main_loop E d N site_ids w nm marker)))
       (drop (start_idx marker site_ids) site_ids) \<and>
   (length (history (main_loop E d N site_ids w nm marker)) <
      length (drop (start_idx marker site_ids) site_ids) \<longrightarrow>
    breaks_at N (history (main_loop E d N site_ids w nm marker)))"
  using iterate_from_initial[of E d N "drop (start_idx marker site_ids) site_ids" w nm marker]
  unfolding main_loop_def by blast

text \<open>
  Claim C3, as amended. For a discovered sequence, sorted and without duplicates: when
  the marker is its element at position \<open>K\<close>, the loop starts at index \<open>K + 1\<close> and
  attempts the elements behind position \<open>K\<close>, in ascending order and from the first of
  them on: exactly these elements when the circuit breaker does not fire, and an initial
  stretch of them, ended by the breaker, otherwise. With no marker, or a marker that is
  not in the sequence, the same holds of the whole sequence: the loop starts at its first
  element.
\<close>

theorem C3_resume_after_marker:
  assumes "sorted site_ids" and "distinct site_ids"
  shows
    "(K < length site_ids \<longrightarrow>
        (let h = history (main_loop E d N site_ids w nm (Some (site_ids ! K))) in
           start_idx (Some (site_ids ! K)) site_ids = K + 1 \<and>
           map fst h = take (length h) (drop (K + 1) site_ids) \<and>
           (length h < length (drop (K + 1) site_ids) \<longrightarrow> breaks_at N h) \<and>
           (\<not> breaks_at N h \<longrightarrow> map fst h = drop (K + 1) site_ids) \<and>
           sorted (map fst h))) \<and>
     (marker = None \<or> (\<exists>m. marker = Some m \<and> m \<notin> set site_ids) \<longrightarrow>
        (let h = history (main_loop E d N site_ids w nm marker) in
           start_idx marker site_ids = 0 \<and>
           map fst h = take (length h) site_ids \<and>
           (length h < length site_ids \<longrightarrow> breaks_at N h) \<and>
           (\<not> breaks_at N h \<longrightarrow> map fst h = site_ids)))"
proof (intro conjI impI)
  assume K: "K < length site_ids"
  let ?h = "history (main_loop E d N site_ids w nm (Some (site_ids ! K)))"
  have s: "start_idx (Some (site_ids ! K)) site_ids = K + 1"
    using start_idx_found[OF assms(2) K] by simp
  note a = main_loop_attempts[of E d N site_ids w nm "Some (site_ids ! K)", unfolded s]
  have "sorted (drop (K + 1) site_ids)" using assms(1) by (rule sorted_wrt_drop)
  then have "sorted (take (length ?h) (drop (K + 1) site_ids))" by (rule sorted_wrt_take)
  then have srt: "sorted (map fst ?h)" using a by simp
  have whole: "\<not> breaks_at N ?h \<longrightarrow> map fst ?h = drop (K + 1) site_ids"
  proof
    assume "\<not> breaks_at N ?h"
    with a have "length (drop (K + 1) site_ids) \<le> length ?h" by auto
    then have "take (length ?h) (drop (K + 1) site_ids) = drop (K + 1) site_ids"
      by (rule take_all)
    with a show "map fst ?h = drop (K + 1) site_ids" by simp
  qed
  from s a srt whole show "let h = ?h in
           start_idx (Some (site_ids ! K)) site_ids = K + 1 \<and>
           map fst h = take (length h) (drop (K + 1) site_ids) \<and>
           (length h < length (drop (K + 1) site_ids) \<longrightarrow> breaks_at N h) \<and>
           (\<not> breaks_at N h \<longrightarrow> map fst h = drop (K + 1) site_ids) \<and>
           sorted (map fst h)"
    unfolding Let_def by blast
next
  assume m: "marker = None \<or> (\<exists>m. marker = Some m \<and> m \<notin> set site_ids)"
  let ?h = "history (main_loop E d N site_ids w nm marker)"
  from m have s: "start_idx marker site_ids = 0"
    using start_idx_none start_idx_absent by auto
  have a: "map fst ?h = take (length ?h) site_ids \<and>
           (length ?h < length site_ids \<longrightarrow> breaks_at N ?h)"
    using main_loop_attempts[of E d N site_ids w nm marker] unfolding s by simp
  have whole: "\<not> breaks_at N ?h \<longrightarrow> map fst ?h = site_ids"
  proof
    assume "\<not> breaks_at N ?h"
    with a have "length site_ids \<le> length ?h" by auto
    then have "take (length ?h) site_ids = site_ids" by (rule take_all)
    with a show "map fst ?h = site_ids" by simp
  qed
  from s a whole show "let h = ?h in
           start_idx marker site_ids = 0 \<and>
           map fst h = take (length h) site_ids \<and>
           (length h < length site_ids \<longrightarrow> breaks_at N h) \<and>
           (\<not> breaks_at N h \<longrightarrow> map fst h = site_ids)"
    unfolding Let_def by blast
qed

text \<open>
  Claim C3 at the sequence 1, 2, 3 and threshold 30, with the marker at 2 and with no
  marker: the breaker does not fire, and the loop attempts 3 alone, and 1, 2, 3. At
  threshold 1 with no marker the breaker ends the loop behind item 1.
\<close>

theorem C3_witness_resume:
  "sorted [1, 2, 3 :: int] \<and> distinct [1, 2, 3 :: int] \<and>
   start_idx (Some 2) [1, 2, 3] = 2 \<and>
   \<not> breaks_at 30 (history (main_loop nameless_site (ustr ''out'') 30 [1, 2, 3] empty_world Map.empty (Some 2))) \<and>
   map fst (history (main_loop nameless_site (ustr ''out'') 30 [1, 2, 3] empty_world Map.empty (Some 2))) = [3] \<and>
   start_idx None [1, 2, 3] = 0 \<and>
   map fst (history (main_loop nameless_site (ustr ''out'') 30 [1, 2, 3] empty_world Map.empty None)) = [1, 2, 3] \<and>
   breaks_at 1 (history (main_loop nameless_site (ustr ''out'') 1 [1, 2, 3] empty_world Map.empty None)) \<and>
   map fst (history (main_loop nameless_site (ustr ''out'') 1 [1, 2, 3] empty_world Map.empty None)) = [1]"
proof -
  have s: "sorted [1, 2, 3 :: int]" and d: "distinct [1, 2, 3 :: int]" by simp_all
  note t = C3_resume_after_marker[OF s d, of 1 nameless_site "ustr ''out''" 30 empty_world Map.empty None]
  have c: "history (main_loop nameless_site (ustr ''out'') 30 [1, 2, 3] empty_world Map.empty (Some 2))
      = [(3, False)]"
    by (simp add: run_eval)
  have e: "history (main_loop nameless_site (ustr ''out'') 30 [1, 2, 3] empty_world Map.empty None)
      = [(1, False), (2, False), (3, False)]"
    by (simp add: run_eval)
  have g: "history (main_loop nameless_site (ustr ''out'') 1 [1, 2, 3] empty_world Map.empty None)
      = [(1, False)]"
    by (simp add: run_eval)
  have nb: "\<not> breaks_at 30 (history (main_loop nameless_site (ustr ''out'') 30 [1, 2, 3] empty_world Map.empty (Some 2)))"
    unfolding c by (simp add: breaks_at_def trailing_misses_def)
  have nb0: "\<not> breaks_at 30 (history (main_loop nameless_site (ustr ''out'') 30 [1, 2, 3] empty_world Map.empty None))"
    unfolding e by (simp add: breaks_at_def trailing_misses_def)
  have a: "start_idx (Some 2) [1, 2, 3] = 2"
    using t[THEN conjunct1] by (simp add: Let_def)
  have a': "map fst (history (main_loop nameless_site (ustr ''out'') 30 [1, 2, 3] empty_world Map.empty (Some 2))) = [3]"
  proof -
    have k: "(1::nat) < length [1, 2, 3 :: int]" by simp
    have idx: "[1, 2, 3 :: int] ! 1 = 2" by simp
    note t1 = t[THEN conjunct1, THEN mp, OF k, unfolded Let_def idx]
    note t2 = t1[THEN conjunct2, THEN conjunct2, THEN conjunct2, THEN conjunct1, THEN mp, OF nb]
    then show ?thesis by simp
  qed
  have b: "start_idx None [1, 2, 3] = 0"
    using t[THEN conjunct2] by (simp add: Let_def)
  have b': "map fst (history (main_loop nameless_site (ustr ''out'') 30 [1, 2, 3] empty_world Map.empty None)) = [1, 2, 3]"
  proof -
    have none: "None = None \<or> (\<exists>m. (None :: int option) = Some m \<and> m \<notin> set [1, 2, 3 :: int])"
      by simp
    note t3 = t[THEN conjunct2, THEN mp, OF none, unfolded Let_def]
    note t4 = t3[THEN conjunct2, THEN conjunct2, THEN conjunct2, THEN mp, OF nb0]
    then show ?thesis by simp
  qed
  have br: "breaks_at 1 (history (main_loop nameless_site (ustr ''out'') 1 [1, 2, 3] empty_world Map.empty None))"
    unfolding g by (simp add: breaks_at_def trailing_misses_def)
  have one: "map fst (history (main_loop nameless_site (ustr ''out'') 1 [1, 2, 3] empty_world Map.empty None)) = [1]"
    unfolding g by simp
  show ?thesis using s d a nb a' b b' br one by blast
qed

text \<open>
  Claim C3 as stated has the run process exactly the elements behind position \<open>K\<close>. With
  the sequence 1, 2, 3, the marker at 1 (position 0) and threshold 1 on a site where every
  item fails, item 2 is attempted, the circuit breaker fires (line 268), and item 3, which
  is behind position 0 too, is never attempted.
\<close>

theorem C3_circuit_break_counterexample:
  "sorted [1, 2, 3 :: int] \<and> distinct [1, 2, 3 :: int] \<and> [1, 2, 3 :: int] ! 0 = 1 \<and>
   drop (0 + 1) [1, 2, 3 :: int] = [2, 3] \<and>
   map fst (history (main_loop nameless_site (ustr ''out'') 1 [1, 2, 3] empty_world Map.empty (Some 1))) = [2] \<and>
   map fst (history (main_loop nameless_site (ustr ''out'') 1 [1, 2, 3] empty_world Map.empty (Some 1)))
     \<noteq> drop (0 + 1) [1, 2, 3]"
  by (simp add: run_eval)

section \<open>Properties of the item pull engine\<close>

lemma get_site_name_nonempty: "get_site_name E w = Some n \<Longrightarrow> n \<noteq> []"
  by (auto simp: get_site_name_def Let_def split: if_splits option.splits)

lemma is_site_complete_kinds:
  "is_site_complete fs out_dir slug \<longleftrightarrow>
      file_ok fs (os_path_join out_dir [ustr ''incidence'', slug @ ustr ''.csv'']) \<and>
      file_ok fs (os_path_join out_dir [ustr ''mortality'', slug @ ustr ''.csv'']) \<and>
      file_ok fs (os_path_join out_dir [ustr ''survival'', slug @ ustr ''.csv''])"
  by (simp add: is_site_complete_def SPECS_def artifact_path_def)

text \<open>
  Claim C8. When the navigation to the item's page returns, the display name resolves
  and the item is complete for the slug of that name, \<open>pull_one_site\<close> returns success;
  the page has seen one more event, the navigation to the item's page, and no click and
  no download; the files are as before; the skip line is printed and the name map holds
  the slug.
\<close>

theorem C8_skip_complete_item:
  assumes "goto_ok E (events w) (site_url (hd SPECS) site_id)"
    and "get_site_name E (w\<lparr>events := events w @ [Goto (site_url (hd SPECS) site_id)]\<rparr>) = Some site_name"
    and "is_site_complete (files w) out_dir (slugify_site_name (unicode_lower E) site_name)"
  shows "pull_one_site E site_id out_dir (w, nm) =
     (True,
      w\<lparr>events := events w @ [Goto (site_url (hd SPECS) site_id)],
        console := console w @
          [ustr ''   SKIP (complete): '' @ slugify_site_name (unicode_lower E) site_name]\<rparr>,
      setdefault nm (slugify_site_name (unicode_lower E) site_name) site_name)"
proof -
  have ne: "site_name \<noteq> []" using assms(2) by (rule get_site_name_nonempty)
  show ?thesis
    unfolding pull_one_site_def page_goto_def
    using assms ne by (simp add: Let_def)
qed

lemma lung_slug: "slugify_site_name no_unicode (ustr ''Lung'') = ustr ''lung''"
  by (simp add: slug_eval)

lemma lung_complete: "is_site_complete lung_done (ustr ''out'') (ustr ''lung'')"
  unfolding is_site_complete_kinds by (simp add: fs_eval lung_done_def)

text \<open>
  Claim C8 at item 12 on a site that names it \<open>Lung\<close>, with the three artifacts of
  \<open>lung\<close> on disk.
\<close>

theorem C8_witness_lung:
  "pull_one_site lung_site 12 (ustr ''out'') (empty_world\<lparr>files := lung_done\<rparr>, Map.empty) =
     (True,
      \<lparr>events = [Goto (site_url (hd SPECS) 12)], files = lung_done,
       console = [ustr ''   SKIP (complete): lung'']\<rparr>,
      [ustr ''lung'' \<mapsto> ustr ''Lung''])"
proof -
  let ?w = "empty_world\<lparr>files := lung_done\<rparr>"
  have 1: "goto_ok lung_site (events ?w) (site_url (hd SPECS) 12)"
    by (simp add: lung_site_def)
  have 2: "get_site_name lung_site (?w\<lparr>events := events ?w @ [Goto (site_url (hd SPECS) 12)]\<rparr>)
      = Some (ustr ''Lung'')"
    by (simp add: get_site_name_def lung_site_def Let_def ustr_def py_strip_def strip_by_def is_space_def)
  have u: "unicode_lower lung_site = no_unicode" by (simp add: lung_site_def)
  have 3: "is_site_complete (files ?w) (ustr ''out'')
      (slugify_site_name (unicode_lower lung_site) (ustr ''Lung''))"
    unfolding u lung_slug using lung_complete by simp
  from C8_skip_complete_item[OF 1 2 3, of Map.empty]
  show ?thesis
    unfolding u lung_slug by (simp add: empty_world_def setdefault_def ustr_def)
qed

section \<open>Properties of the list discovery\<close>

lemma finite_seen_after: "finite (seen_after reads n)"
  by (induction n) simp_all

lemma seen_after_universe: "\<forall>k. set (reads k) \<subseteq> U \<Longrightarrow> seen_after reads n \<subseteq> U"
  by (induction n) auto

lemma card_union_same: "finite A \<Longrightarrow> card (A \<union> set ids) = card A \<longleftrightarrow> set ids \<subseteq> A"
proof
  assume f: "finite A" and c: "card (A \<union> set ids) = card A"
  have "A \<subseteq> A \<union> set ids" by blast
  moreover have "finite (A \<union> set ids)" using f by simp
  ultimately have "A = A \<union> set ids" using c by (metis card_subset_eq)
  then show "set ids \<subseteq> A" by blast
next
  assume "set ids \<subseteq> A"
  then have "A \<union> set ids = A" by blast
  then show "card (A \<union> set ids) = card A" by simp
qed

lemma discover_loop_step:
  assumes "stability_counter reads k < 6"
  shows "discover_loop reads k (seen_after reads k) (stability_counter reads k) =
         discover_loop reads (Suc k) (seen_after reads (Suc k)) (stability_counter reads (Suc k))"
  by (subst discover_loop.simps)
     (simp add: assms Let_def card_union_same[OF finite_seen_after])

lemma discover_loop_stop:
  assumes "\<not> stability_counter reads k < 6"
  shows "discover_loop reads k (seen_after reads k) (stability_counter reads k) =
         Some (seen_after reads k)"
  by (subst discover_loop.simps) (simp add: assms)

lemma stability_counter_step_le: "stability_counter reads k < 6 \<Longrightarrow> stability_counter reads (Suc k) \<le> 6"
  by simp

lemma discover_loop_returns:
  assumes fin: "finite U" and sub: "\<forall>k. set (reads k) \<subseteq> U"
  shows "stability_counter reads k \<le> 6 \<Longrightarrow> (\<forall>j<k. stability_counter reads j < 6) \<Longrightarrow>
         m = 6 * card (U - seen_after reads k) + (6 - stability_counter reads k) \<Longrightarrow>
         \<exists>n. stability_counter reads n = 6 \<and> (\<forall>j<n. stability_counter reads j < 6) \<and>
             discover_loop reads k (seen_after reads k) (stability_counter reads k)
               = Some (seen_after reads n)"
proof (induction m arbitrary: k rule: less_induct)
  case (less m)
  show ?case
  proof (cases "stability_counter reads k < 6")
    case False
    with less.prems(1) have six: "stability_counter reads k = 6" by simp
    show ?thesis
      apply (rule exI[of _ k])
      using six less.prems(2) discover_loop_stop[OF False] by simp
  next
    case True
    let ?c = "stability_counter reads k"
    let ?m' = "6 * card (U - seen_after reads (Suc k)) + (6 - stability_counter reads (Suc k))"
    have below: "\<forall>j<Suc k. stability_counter reads j < 6"
      using less.prems(2) True by (auto simp: less_Suc_eq)
    have le: "stability_counter reads (Suc k) \<le> 6" using True by simp
    have dec: "?m' < m"
    proof (cases "set (reads k) \<subseteq> seen_after reads k")
      case same: True
      then have "seen_after reads (Suc k) = seen_after reads k" by auto
      moreover have "stability_counter reads (Suc k) = ?c + 1" using same by simp
      ultimately show ?thesis using True less.prems(3) by simp
    next
      case grow: False
      have "seen_after reads k \<subset> seen_after reads (Suc k)" using grow by auto
      moreover have "seen_after reads (Suc k) \<subseteq> U" using sub by (rule seen_after_universe)
      ultimately have "U - seen_after reads (Suc k) \<subset> U - seen_after reads k" by blast
      moreover have "finite (U - seen_after reads k)" using fin by simp
      ultimately have "card (U - seen_after reads (Suc k)) < card (U - seen_after reads k)"
        by (rule psubset_card_mono[rotated])
      moreover have "stability_counter reads (Suc k) = 0" using grow by simp
      ultimately show ?thesis using True less.prems(3) by simp
    qed
    from less.IH[OF dec le below refl] obtain n where
      n: "stability_counter reads n = 6" "\<forall>j<n. stability_counter reads j < 6"
         "discover_loop reads (Suc k) (seen_after reads (Suc k)) (stability_counter reads (Suc k))
            = Some (seen_after reads n)"
      by blast
    show ?thesis
      apply (rule exI[of _ n])
      using n discover_loop_step[OF True] by simp
  qed
qed

lemma discover_loop_from_start:
  assumes "finite U" and "\<forall>k. set (reads k) \<subseteq> U"
  shows "\<exists>n. stability_counter reads n = 6 \<and> (\<forall>j<n. stability_counter reads j < 6) \<and>
             discover_loop reads 0 {} 0 = Some (seen_after reads n)"
  using discover_loop_returns[OF assms, of 0 "6 * card (U - seen_after reads 0) + (6 - stability_counter reads 0)"]
  by simp


text \<open>
  Claim C2, as amended. For reads drawn from a finite universe \<open>U\<close> and a selection
  control that opens, \<open>get_all_site_ids\<close> returns: it stops at the first read cycle count
  \<open>n\<close> at which the stability counter stands at six, and returns the identifiers rendered
  in the \<open>n\<close> cycles made, sorted ascending and without duplicates, all of them in \<open>U\<close>. The
  result is the whole of \<open>U\<close> when every identifier has been rendered by the time six
  cycles in a row have added nothing.
\<close>

theorem C2_discovery_terminates_sorted:
  assumes "finite U" and "\<forall>k. set (reads k) \<subseteq> U"
  shows "\<exists>n. stability_counter reads n = 6 \<and> (\<forall>j<n. stability_counter reads j < 6) \<and>
             get_all_site_ids True reads = Some (Inr (sorted_list_of_set (seen_after reads n))) \<and>
             sorted (sorted_list_of_set (seen_after reads n)) \<and>
             distinct (sorted_list_of_set (seen_after reads n)) \<and>
             set (sorted_list_of_set (seen_after reads n)) = seen_after reads n \<and>
             seen_after reads n \<subseteq> U \<and>
             ((\<forall>m. stability_counter reads m = 6 \<longrightarrow> U \<subseteq> seen_after reads m) \<longrightarrow>
                get_all_site_ids True reads = Some (Inr (sorted_list_of_set U)))"
proof -
  from discover_loop_from_start[OF assms] obtain n where
    six: "stability_counter reads n = 6" and first: "\<forall>j<n. stability_counter reads j < 6"
    and loop: "discover_loop reads 0 {} 0 = Some (seen_after reads n)"
    by blast
  have res: "get_all_site_ids True reads = Some (Inr (sorted_list_of_set (seen_after reads n)))"
    by (simp add: get_all_site_ids_def loop)
  have fin: "finite (seen_after reads n)" by (rule finite_seen_after)
  have sub: "seen_after reads n \<subseteq> U" using assms(2) by (rule seen_after_universe)
  have whole: "(\<forall>m. stability_counter reads m = 6 \<longrightarrow> U \<subseteq> seen_after reads m) \<longrightarrow>
                get_all_site_ids True reads = Some (Inr (sorted_list_of_set U))"
  proof
    assume "\<forall>m. stability_counter reads m = 6 \<longrightarrow> U \<subseteq> seen_after reads m"
    with six have "U \<subseteq> seen_after reads n" by blast
    with sub have "seen_after reads n = U" by blast
    with res show "get_all_site_ids True reads = Some (Inr (sorted_list_of_set U))" by simp
  qed
  show ?thesis
    apply (rule exI[of _ n])
    using six first res fin sub whole by simp
qed

lemma prompt_reads_universe: "\<forall>k. set (prompt_reads k) \<subseteq> {1, 2, 3}"
  by (simp add: prompt_reads_def)

text \<open>Claim C2 at the identifiers 1, 2, 3, all rendered within the first two read cycles.\<close>

theorem C2_witness_prompt_reads:
  "finite {1, 2, 3 :: int} \<and>
   (\<exists>n. stability_counter prompt_reads n = 6 \<and>
        get_all_site_ids True prompt_reads =
          Some (Inr (sorted_list_of_set (seen_after prompt_reads n)))) \<and>
   get_all_site_ids True prompt_reads = Some (Inr [1, 2, 3])"
proof -
  have f: "finite {1, 2, 3 :: int}" by simp
  from C2_discovery_terminates_sorted[OF f prompt_reads_universe]
  have a: "\<exists>n. stability_counter prompt_reads n = 6 \<and>
        get_all_site_ids True prompt_reads =
          Some (Inr (sorted_list_of_set (seen_after prompt_reads n)))"
    by blast
  have l: "discover_loop prompt_reads 0 {} 0 = Some {1, 2, 3}"
    by (simp add: discover_loop.simps prompt_reads_def insert_commute)
  have "sorted_list_of_set (set [1, 2, 3 :: int]) = [1, 2, 3]"
    unfolding sorted_list_of_set_sort_remdups by simp
  then have "sorted_list_of_set {1, 2, 3 :: int} = [1, 2, 3]" by simp
  with l have b: "get_all_site_ids True prompt_reads = Some (Inr [1, 2, 3])"
    by (simp add: get_all_site_ids_def)
  show ?thesis using f a b by blast
qed

text \<open>
  Claim C2 as stated returns the whole universe whenever every identifier is rendered
  at some time. The list \<open>late_reads\<close> renders identifier 1 from its seventh read cycle
  on; six cycles have added nothing by then, the loop has stopped, and the result is empty.
\<close>

theorem C2_late_rendering_counterexample:
  "late_reads 6 = [1] \<and>
   get_all_site_ids True late_reads = Some (Inr []) \<and>
   get_all_site_ids True late_reads \<noteq> Some (Inr (sorted_list_of_set {1}))"
  by (simp add: get_all_site_ids_def discover_loop.simps late_reads_def)

end
